theory Spec2Isabelle
  imports Complex_Main "HOL-Library.Product_Lexorder" "HOL-Library.Multiset"
begin

section \<open>Numerical gradient kernel: NumericalDerivatorMinuit2\<close>

text \<open>
  The kernel computes with C++ \<^verbatim>\<open>double\<close>. A finite double is modelled as a \<^typ>\<open>real\<close>:
  rounding and overflow are outside the model, the control flow and the order of the
  clamps and tests are those of the source. Where IEEE arithmetic on finite doubles leaves
  the finite doubles, the model says so: the square root of a quotient is infinite or NaN
  for some arguments (see \<open>sqrt_quotient\<close>), a quotient with denominator zero is compared
  by \<^verbatim>\<open><\<close> (see \<open>quotient_less\<close>), and the assertions at the head of \<^verbatim>\<open>Differentiate\<close>
  may fail. Unsigned counters (\<^verbatim>\<open>unsigned int\<close>, \<^verbatim>\<open>size_t\<close>) are natural numbers: no
  claim below depends on their wrap-around.
\<close>

subsection \<open>Precision constants\<close>

text \<open>\<^verbatim>\<open>std::numeric_limits<double>::epsilon()\<close> and its square root, as computed at the
  head of \<^verbatim>\<open>Differentiate\<close>; \<^verbatim>\<open>vrysml = 8.*eps*eps\<close>.\<close>

definition eps :: real where
  "eps = 1 / 2 ^ 52"

definition eps2 :: real where
  "eps2 = sqrt eps"

definition vrysml :: real where
  "vrysml = 8 * eps * eps"

subsection \<open>State of the derivator\<close>

text \<open>\<^verbatim>\<open>ROOT::Math::IBaseFunctionMultiDim\<close>: a dimension and a pure evaluation.\<close>

record IBaseFunctionMultiDim =
  NDim :: nat
  DoEval :: "real list \<Rightarrow> real"

text \<open>The data members of the class; \<open>fFunction\<close> is a pointer, \<open>None\<close> is the null pointer.\<close>

record NumericalDerivatorMinuit2 =
  fFunction :: "IBaseFunctionMultiDim option"
  fStepTolerance :: real
  fGradTolerance :: real
  fNCycles :: nat
  fVal :: real
  fN :: nat
  Up :: real
  fGrd :: "real list"
  fG2 :: "real list"
  fGstep :: "real list"

text \<open>The default constructor.\<close>

definition NumericalDerivatorMinuit2_default :: NumericalDerivatorMinuit2 where
  "NumericalDerivatorMinuit2_default =
     \<lparr>fFunction = None, fStepTolerance = 0.5, fGradTolerance = 0.1, fNCycles = 2,
      fVal = 0, fN = 0, Up = 1, fGrd = [], fG2 = [], fGstep = []\<rparr>"

text \<open>The constructor from a function, the tolerances, the number of cycles and the error
  level: the three vectors are resized to \<open>f.NDim()\<close> and filled with \<open>(0.1, 0.1, 0.001)\<close>.\<close>

definition NumericalDerivatorMinuit2_ctor ::
  "IBaseFunctionMultiDim \<Rightarrow> real \<Rightarrow> real \<Rightarrow> nat \<Rightarrow> real \<Rightarrow> NumericalDerivatorMinuit2" where
  "NumericalDerivatorMinuit2_ctor f step_tolerance grad_tolerance ncycles error_level =
     \<lparr>fFunction = Some f, fStepTolerance = step_tolerance, fGradTolerance = grad_tolerance,
      fNCycles = ncycles, fVal = 0, fN = NDim f, Up = error_level,
      fGrd = replicate (NDim f) 0.1, fG2 = replicate (NDim f) 0.1,
      fGstep = replicate (NDim f) 0.001\<rparr>"

text \<open>\<^verbatim>\<open>SetInitialValues(g, g2, s)\<close> copies the first \<open>fN\<close> entries of three arrays.\<close>

definition SetInitialValues ::
  "(nat \<Rightarrow> real) \<Rightarrow> (nat \<Rightarrow> real) \<Rightarrow> (nat \<Rightarrow> real) \<Rightarrow> NumericalDerivatorMinuit2 \<Rightarrow>
   NumericalDerivatorMinuit2" where
  "SetInitialValues g g2 s d =
     d\<lparr>fGrd := map g [0..<fN d], fG2 := map g2 [0..<fN d], fGstep := map s [0..<fN d]\<rparr>"

text \<open>The vectors of a derivator built by the constructor have \<open>fN\<close> entries and \<open>fN\<close> is the
  dimension of the function; indexing below \<open>fN\<close> is then in range, as the source assumes.\<close>

definition derivator_wf :: "NumericalDerivatorMinuit2 \<Rightarrow> bool" where
  "derivator_wf d \<longleftrightarrow>
     (case fFunction d of None \<Rightarrow> True | Some f \<Rightarrow> fN d = NDim f) \<and>
     length (fGrd d) = fN d \<and> length (fG2 d) = fN d \<and> length (fGstep d) = fN d"

subsection \<open>One cycle of \<^verbatim>\<open>Differentiate\<close>\<close>

text \<open>\<^verbatim>\<open>std::sqrt(num / den)\<close> for finite doubles \<open>num\<close> and \<open>den\<close>. Over a zero denominator
  the quotient is \<open>+\<infinity>\<close> for a positive numerator, and its root too; it is \<open>-\<infinity>\<close> or NaN
  otherwise, and the root NaN. The root of a negative quotient is NaN.\<close>

datatype sqrt_result = Finite real | Infinite | NaN

definition sqrt_quotient :: "real \<Rightarrow> real \<Rightarrow> sqrt_result" where
  "sqrt_quotient num den =
     (if den = 0 then (if 0 < num then Infinite else NaN)
      else if num / den < 0 then NaN
      else Finite (sqrt (num / den)))"

text \<open>The choice of the step of one cycle (from \<^verbatim>\<open>optstp\<close> to the lower clamp). The
  arguments are \<open>dfmin\<close>, \<open>epspri\<close>, \<open>fG2[i]\<close>, \<open>fGstep[i]\<close> and \<open>x[i]\<close>. The source has no
  clamp to \<open>0.5\<close> here: the condition on parameter limits is commented out under a
  \<^verbatim>\<open>DIFFERS\<close> remark, and the class holds no parameter settings. The result \<open>None\<close> is a
  NaN step: \<^verbatim>\<open>std::max(optstp, ...)\<close> returns its first argument when that is NaN, and
  both clamps compare false on it. An infinite \<open>optstp\<close> is greater than \<open>stpmax\<close> and
  leaves the upper clamp as \<open>stpmax\<close>.\<close>

definition cycle_step :: "real \<Rightarrow> real \<Rightarrow> real \<Rightarrow> real \<Rightarrow> real \<Rightarrow> real option" where
  "cycle_step dfmin epspri g2_i gstep_i x_i =
     (case sqrt_quotient dfmin (\<bar>g2_i\<bar> + epspri) of
        NaN \<Rightarrow> None
      | Infinite \<Rightarrow>
          (let stpmax = 10 * \<bar>gstep_i\<bar>;
               step = stpmax;
               stpmin = max vrysml (8 * \<bar>eps2 * x_i\<bar>);
               step = (if step < stpmin then stpmin else step)
           in Some step)
      | Finite optstp \<Rightarrow>
          (let step = max optstp \<bar>0.1 * gstep_i\<bar>;
               stpmax = 10 * \<bar>gstep_i\<bar>;
               step = (if step > stpmax then stpmax else step);
               stpmin = max vrysml (8 * \<bar>eps2 * x_i\<bar>);
               step = (if step < stpmin then stpmin else step)
           in Some step))"

text \<open>\<^verbatim>\<open>num / den < tol\<close> as IEEE arithmetic decides it for a numerator that is an absolute
  value: over a zero denominator the quotient is \<open>+\<infinity>\<close> or NaN and the comparison is false,
  where HOL's \<open>num / 0 = 0\<close> would make it true for a positive tolerance.\<close>

definition quotient_less :: "real \<Rightarrow> real \<Rightarrow> real \<Rightarrow> bool" where
  "quotient_less num den tol \<longleftrightarrow> den \<noteq> 0 \<and> num / den < tol"

text \<open>The part of a cycle after the step-size test: store the step, evaluate the function
  at \<open>xtf + step\<close> and \<open>xtf - step\<close>, restore \<open>x[i]\<close>, and set the two derivatives.\<close>

definition cycle_update ::
  "IBaseFunctionMultiDim \<Rightarrow> nat \<Rightarrow> real \<Rightarrow> real \<Rightarrow> real list \<times> NumericalDerivatorMinuit2 \<Rightarrow>
   real list \<times> NumericalDerivatorMinuit2" where
  "cycle_update f i xtf step xd =
     (let x = fst xd; d = snd xd;
          d = d\<lparr>fGstep := (fGstep d)[i := step]\<rparr>;
          x = x[i := xtf + step];
          fs1 = DoEval f x;
          x = x[i := xtf - step];
          fs2 = DoEval f x;
          x = x[i := xtf];
          d = d\<lparr>fGrd := (fGrd d)[i := 0.5 * (fs1 - fs2) / step]\<rparr>;
          d = d\<lparr>fG2 := (fG2 d)[i := (fs1 + fs2 - 2 * fVal d) / step / step]\<rparr>
      in (x, d))"

text \<open>The loop \<^verbatim>\<open>for (j = 0; j < ncycle; ++j)\<close> for parameter \<open>i\<close>, by recursion on the
  number of cycles that remain. Both \<^verbatim>\<open>break\<close>s return the current state. With a NaN step
  the source goes on: no test on it holds, it is stored, and the function is evaluated at
  NaN; the model, whose function takes reals, ends there with \<open>None\<close>.\<close>

fun cycle_loop ::
  "IBaseFunctionMultiDim \<Rightarrow> real \<Rightarrow> real \<Rightarrow> real \<Rightarrow> nat \<Rightarrow> real \<Rightarrow> real \<Rightarrow> nat \<Rightarrow> real \<Rightarrow>
   real list \<times> NumericalDerivatorMinuit2 \<Rightarrow> (real list \<times> NumericalDerivatorMinuit2) option" where
  "cycle_loop f step_tolerance grad_tolerance dfmin i xtf epspri 0 step_old xd = Some xd"
| "cycle_loop f step_tolerance grad_tolerance dfmin i xtf epspri (Suc n) step_old xd =
     (case cycle_step dfmin epspri (fG2 (snd xd) ! i) (fGstep (snd xd) ! i) (fst xd ! i) of
        None \<Rightarrow> None
      | Some step \<Rightarrow>
          if \<bar>(step - step_old) / step\<bar> < step_tolerance then Some xd
          else
            let fGrd_old = fGrd (snd xd) ! i;
                xd' = cycle_update f i xtf step xd
            in if quotient_less \<bar>fGrd_old - fGrd (snd xd') ! i\<bar>
                    (\<bar>fGrd (snd xd') ! i\<bar> + dfmin / step) grad_tolerance
               then Some xd'
               else cycle_loop f step_tolerance grad_tolerance dfmin i xtf epspri n step xd')"

text \<open>The body of the loop over the parameters: \<open>xtf\<close>, \<open>epspri\<close> and \<open>step_old = 0\<close> are set
  once, before the cycles.\<close>

definition param_body ::
  "IBaseFunctionMultiDim \<Rightarrow> real \<Rightarrow> real \<Rightarrow> real \<Rightarrow> nat \<Rightarrow> nat \<Rightarrow>
   real list \<times> NumericalDerivatorMinuit2 \<Rightarrow> (real list \<times> NumericalDerivatorMinuit2) option" where
  "param_body f step_tolerance grad_tolerance dfmin ncycle i xd =
     (let xtf = fst xd ! i;
          epspri = eps2 + \<bar>fGrd (snd xd) ! i * eps2\<bar>;
          step_old = 0
      in cycle_loop f step_tolerance grad_tolerance dfmin i xtf epspri ncycle step_old xd)"

text \<open>The loop \<^verbatim>\<open>for (int i = 0; i < int(fN); i++)\<close> over a list of indices.\<close>

fun param_loop ::
  "IBaseFunctionMultiDim \<Rightarrow> real \<Rightarrow> real \<Rightarrow> real \<Rightarrow> nat \<Rightarrow> nat list \<Rightarrow>
   real list \<times> NumericalDerivatorMinuit2 \<Rightarrow> (real list \<times> NumericalDerivatorMinuit2) option" where
  "param_loop f step_tolerance grad_tolerance dfmin ncycle [] xd = Some xd"
| "param_loop f step_tolerance grad_tolerance dfmin ncycle (i # rest) xd =
     (case param_body f step_tolerance grad_tolerance dfmin ncycle i xd of
        None \<Rightarrow> None
      | Some xd' \<Rightarrow> param_loop f step_tolerance grad_tolerance dfmin ncycle rest xd')"

text \<open>\<^verbatim>\<open>Differentiate(cx)\<close>. The argument is a pointer: \<open>cx k\<close> is \<^verbatim>\<open>cx[k]\<close>, and the first
  \<open>NDim\<close> entries are copied. The C++ function returns \<^verbatim>\<open>&fGrd[0]\<close> and leaves its results
  in the object, which the model returns. \<open>Assertion_failed\<close> is a failed \<^verbatim>\<open>assert\<close>;
  \<open>Not_a_number\<close> is a call in which the step of some cycle is NaN, where the source returns
  with NaN in its vectors.\<close>

datatype Differentiate_failure = Assertion_failed | Not_a_number

definition Differentiate ::
  "NumericalDerivatorMinuit2 \<Rightarrow> (nat \<Rightarrow> real) \<Rightarrow>
   Differentiate_failure + NumericalDerivatorMinuit2" where
  "Differentiate d cx =
     (case fFunction d of
        None \<Rightarrow> Inl Assertion_failed
      | Some f \<Rightarrow>
          let vx = map cx [0..<NDim f] in
          if \<not> 0 < length vx then Inl Assertion_failed
          else
            let x = vx;
                step_tolerance = fStepTolerance d;
                grad_tolerance = fGradTolerance d;
                d = d\<lparr>fVal := DoEval f x\<rparr>;
                dfmin = 8 * eps2 * (\<bar>fVal d\<bar> + Up d);
                ncycle = fNCycles d
            in case param_loop f step_tolerance grad_tolerance dfmin ncycle [0..<fN d] (x, d) of
                 None \<Rightarrow> Inl Not_a_number
               | Some xd \<Rightarrow> Inr (snd xd))"

subsection \<open>The cycle of \<^verbatim>\<open>Numerical2PGradientCalculator::operator()\<close>\<close>

text \<open>\<^verbatim>\<open>MnMachinePrecision\<close> is not under the sources: its two accessors are the fields of a
  record, and the calculators take it as a parameter.\<close>

record MnMachinePrecision =
  Eps :: real
  Eps2 :: real

text \<open>The choice of the step in the Minuit2 calculator, the sibling of \<open>cycle_step\<close>: here the
  clamp to \<open>0.5\<close> for a parameter with limits stands between the candidate and the upper
  clamp. \<open>HasLimits\<close> is \<^verbatim>\<open>Trafo().Parameter(Trafo().ExtOfInt(i)).HasLimits()\<close>. An infinite
  candidate is greater than \<open>0.5\<close> and than \<open>stpmax\<close>.\<close>

definition Numerical2P_cycle_step ::
  "MnMachinePrecision \<Rightarrow> bool \<Rightarrow> real \<Rightarrow> real \<Rightarrow> real \<Rightarrow> real \<Rightarrow> real \<Rightarrow> real option" where
  "Numerical2P_cycle_step prec HasLimits dfmin epspri g2_i gstep_i x_i =
     (case sqrt_quotient dfmin (\<bar>g2_i\<bar> + epspri) of
        NaN \<Rightarrow> None
      | Infinite \<Rightarrow>
          (let stpmax = 10 * \<bar>gstep_i\<bar>;
               step = (if HasLimits then (if 0.5 > stpmax then stpmax else 0.5) else stpmax);
               stpmin = max (8 * Eps prec * Eps prec) (8 * \<bar>Eps2 prec * x_i\<bar>);
               step = (if step < stpmin then stpmin else step)
           in Some step)
      | Finite optstp \<Rightarrow>
          (let step = max optstp \<bar>0.1 * gstep_i\<bar>;
               step = (if HasLimits then (if step > 0.5 then 0.5 else step) else step);
               stpmax = 10 * \<bar>gstep_i\<bar>;
               step = (if step > stpmax then stpmax else step);
               stpmin = max (8 * Eps prec * Eps prec) (8 * \<bar>Eps2 prec * x_i\<bar>);
               step = (if step < stpmin then stpmin else step)
           in Some step))"

subsection \<open>\<^verbatim>\<open>SetInitialGradient\<close>\<close>

text \<open>The body of \<^verbatim>\<open>SetInitialGradient\<close> reads \<^verbatim>\<open>Trafo()\<close>, \<^verbatim>\<open>par\<close>, \<^verbatim>\<open>Precision()\<close> and
  \<^verbatim>\<open>fFcn\<close> and writes \<^verbatim>\<open>gr\<close>, \<^verbatim>\<open>gr2\<close> and \<^verbatim>\<open>gst\<close>, none of which the class declares
  (the body is that of Minuit2's initial gradient calculator). They are parameters of the
  model: the transformation with the accessors the body calls, the internal parameter
  vector \<^verbatim>\<open>par.Vec()\<close>, the precision, the error level \<^verbatim>\<open>fFcn.ErrorDef()\<close>, and the three
  vectors as a \<open>FunctionGradient\<close>.\<close>

record MinuitParameter =
  Error :: real
  HasLowerLimit :: bool
  HasUpperLimit :: bool
  LowerLimit :: real
  UpperLimit :: real

text \<open>Modelled from the spec: \<^verbatim>\<open>MinuitParameter::HasLimits\<close> is not under the sources. The
  parameter settings of section 3 carry \<^verbatim>\<open>has_lower_limit\<close> and \<^verbatim>\<open>has_upper_limit\<close>; a
  parameter has limits when it has either.\<close>

definition HasLimits :: "MinuitParameter \<Rightarrow> bool" where
  "HasLimits p \<longleftrightarrow> HasLowerLimit p \<or> HasUpperLimit p"

text \<open>\<^verbatim>\<open>Int2ext\<close> takes the internal index, \<^verbatim>\<open>Ext2int\<close> and \<^verbatim>\<open>Parameter\<close> the external one, as
  the body calls them.\<close>

record MnUserTransformation =
  ExtOfInt :: "nat \<Rightarrow> nat"
  Parameter :: "nat \<Rightarrow> MinuitParameter"
  Int2ext :: "nat \<Rightarrow> real \<Rightarrow> real"
  Ext2int :: "nat \<Rightarrow> real \<Rightarrow> real"

record FunctionGradient =
  Grad :: "real list"
  G2 :: "real list"
  Gstep :: "real list"

text \<open>The first half of the body: the step \<open>vplu\<close> towards \<open>sav + werr\<close>, cut at the upper
  limit.\<close>

definition initial_vplu :: "MnUserTransformation \<Rightarrow> real list \<Rightarrow> nat \<Rightarrow> real" where
  "initial_vplu Trafo par_Vec i =
     (let exOfIn = ExtOfInt Trafo i;
          var = par_Vec ! i;
          werr = Error (Parameter Trafo exOfIn);
          sav = Int2ext Trafo i var;
          sav2 = sav + werr;
          sav2 = (if HasLimits (Parameter Trafo exOfIn)
                  then (if HasUpperLimit (Parameter Trafo exOfIn) \<and>
                           sav2 > UpperLimit (Parameter Trafo exOfIn)
                        then UpperLimit (Parameter Trafo exOfIn) else sav2)
                  else sav2);
          var2 = Ext2int Trafo exOfIn sav2;
          vplu = var2 - var
      in vplu)"

text \<open>The second half: the step \<open>vmin\<close> towards \<open>sav - werr\<close>, cut at the lower limit.\<close>

definition initial_vmin :: "MnUserTransformation \<Rightarrow> real list \<Rightarrow> nat \<Rightarrow> real" where
  "initial_vmin Trafo par_Vec i =
     (let exOfIn = ExtOfInt Trafo i;
          var = par_Vec ! i;
          werr = Error (Parameter Trafo exOfIn);
          sav = Int2ext Trafo i var;
          sav2 = sav - werr;
          sav2 = (if HasLimits (Parameter Trafo exOfIn)
                  then (if HasLowerLimit (Parameter Trafo exOfIn) \<and>
                           sav2 < LowerLimit (Parameter Trafo exOfIn)
                        then LowerLimit (Parameter Trafo exOfIn) else sav2)
                  else sav2);
          var2 = Ext2int Trafo exOfIn sav2;
          vmin = var2 - var
      in vmin)"

text \<open>From \<open>gsmin\<close> to the clamp of \<open>gstep\<close>: the three values of parameter \<open>i\<close>.\<close>

definition initial_gradient_values ::
  "MnUserTransformation \<Rightarrow> MnMachinePrecision \<Rightarrow> real \<Rightarrow> real list \<Rightarrow> nat \<Rightarrow>
   real \<times> real \<times> real" where
  "initial_gradient_values Trafo Precision ErrorDef par_Vec i =
     (let exOfIn = ExtOfInt Trafo i;
          var = par_Vec ! i;
          vplu = initial_vplu Trafo par_Vec i;
          vmin = initial_vmin Trafo par_Vec i;
          gsmin = 8 * Eps2 Precision * (\<bar>var\<bar> + Eps2 Precision);
          dirin = max (0.5 * (\<bar>vplu\<bar> + \<bar>vmin\<bar>)) gsmin;
          g2 = 2.0 * ErrorDef / (dirin * dirin);
          gstep = max gsmin (0.1 * dirin);
          grd = g2 * dirin;
          gstep = (if HasLimits (Parameter Trafo exOfIn)
                   then (if gstep > 0.5 then 0.5 else gstep) else gstep)
      in (grd, g2, gstep))"

text \<open>The three assignments \<^verbatim>\<open>gr(i) = grd; gr2(i) = g2; gst(i) = gstep\<close>.\<close>

definition initial_gradient_body ::
  "MnUserTransformation \<Rightarrow> MnMachinePrecision \<Rightarrow> real \<Rightarrow> real list \<Rightarrow> nat \<Rightarrow>
   FunctionGradient \<Rightarrow> FunctionGradient" where
  "initial_gradient_body Trafo Precision ErrorDef par_Vec i fg =
     (case initial_gradient_values Trafo Precision ErrorDef par_Vec i of
        (grd, g2, gstep) \<Rightarrow>
          fg\<lparr>Grad := (Grad fg)[i := grd], G2 := (G2 fg)[i := g2],
             Gstep := (Gstep fg)[i := gstep]\<rparr>)"

text \<open>The loop \<^verbatim>\<open>for (i = 0; i < fN; ++i)\<close>.\<close>

definition SetInitialGradient ::
  "MnUserTransformation \<Rightarrow> MnMachinePrecision \<Rightarrow> real \<Rightarrow> real list \<Rightarrow>
   NumericalDerivatorMinuit2 \<Rightarrow> FunctionGradient \<Rightarrow> FunctionGradient" where
  "SetInitialGradient Trafo Precision ErrorDef par_Vec d fg =
     fold (initial_gradient_body Trafo Precision ErrorDef par_Vec) [0..<fN d] fg"

text \<open>Modelled from the spec: \<^verbatim>\<open>MnUserTransformation::Int2ext\<close> and \<^verbatim>\<open>Ext2int\<close> are not
  under the sources. Section 4.2: without limits both are the identity; with both limits
  \<open>ext = a + ((b - a) / 2) (sin int + 1)\<close> and \<open>int = arcsin (2 (ext - a) / (b - a) - 1)\<close>;
  with an upper limit only \<open>ext = b + 1 - sqrt (int\<^sup>2 + 1)\<close>; with a lower limit only
  \<open>ext = a - 1 + sqrt (int\<^sup>2 + 1)\<close>. For the one-sided limits \<open>Ext2int\<close> is the inverse on the
  non-negative internal values.\<close>

definition spec_int2ext :: "MinuitParameter \<Rightarrow> real \<Rightarrow> real" where
  "spec_int2ext p v =
     (if HasLowerLimit p \<and> HasUpperLimit p
      then LowerLimit p + ((UpperLimit p - LowerLimit p) / 2) * (sin v + 1)
      else if HasUpperLimit p then UpperLimit p + 1 - sqrt (v\<^sup>2 + 1)
      else if HasLowerLimit p then LowerLimit p - 1 + sqrt (v\<^sup>2 + 1)
      else v)"

definition spec_ext2int :: "MinuitParameter \<Rightarrow> real \<Rightarrow> real" where
  "spec_ext2int p e =
     (if HasLowerLimit p \<and> HasUpperLimit p
      then arcsin (2 * (e - LowerLimit p) / (UpperLimit p - LowerLimit p) - 1)
      else if HasUpperLimit p then sqrt ((UpperLimit p - e + 1)\<^sup>2 - 1)
      else if HasLowerLimit p then sqrt ((e - LowerLimit p + 1)\<^sup>2 - 1)
      else e)"

definition spec_Trafo :: "MinuitParameter list \<Rightarrow> MnUserTransformation" where
  "spec_Trafo ps =
     \<lparr>ExtOfInt = (\<lambda>i. i), Parameter = (\<lambda>e. ps ! e),
      Int2ext = (\<lambda>i v. spec_int2ext (ps ! i) v), Ext2int = (\<lambda>e v. spec_ext2int (ps ! e) v)\<rparr>"

subsection \<open>Concrete inputs\<close>

text \<open>The scalar square \<open>f(x\<^sub>0) = x\<^sub>0\<^sup>2\<close> of the test scenarios, and a derivator for it that
  starts from \<open>(grad, g2, gstep) = (0, 0, 1)\<close> with error level \<open>2\<close>.\<close>

definition scalar_square :: IBaseFunctionMultiDim where
  "scalar_square = \<lparr>NDim = 1, DoEval = (\<lambda>x. (x ! 0)\<^sup>2)\<rparr>"

definition flat_start :: NumericalDerivatorMinuit2 where
  "flat_start =
     SetInitialValues (\<lambda>k. 0) (\<lambda>k. 0) (\<lambda>k. 1) (NumericalDerivatorMinuit2_ctor scalar_square 0.5 0.1 2 2)"



text \<open>A parameter with a lower limit only and a wide error, one without limits, the
  precision of \<^verbatim>\<open>double\<close>, and the vectors a constructor leaves.\<close>

definition lower_limited :: MinuitParameter where
  "lower_limited = \<lparr>Error = 100, HasLowerLimit = True, HasUpperLimit = False,
                     LowerLimit = 0, UpperLimit = 0\<rparr>"

definition unlimited :: MinuitParameter where
  "unlimited = \<lparr>Error = 1 / 2, HasLowerLimit = False, HasUpperLimit = False,
                 LowerLimit = 0, UpperLimit = 0\<rparr>"

definition double_precision :: MnMachinePrecision where
  "double_precision = \<lparr>Eps = eps, Eps2 = eps2\<rparr>"

definition default_gradient :: "nat \<Rightarrow> FunctionGradient" where
  "default_gradient n = \<lparr>Grad = replicate n 0.1, G2 = replicate n 0.1, Gstep = replicate n 0.001\<rparr>"

subsection \<open>What a completed cycle leaves behind\<close>



section \<open>Multi-process task manager: InterProcessQueueAndMessenger\<close>

text \<open>
  The master, the queue process and the workers are separate processes that share nothing
  but pipes. Each process is modelled by the functions it runs on its own state, with what
  it reads from a pipe as an argument and what it writes as a result; a configuration of
  the whole system holds the states of the processes and the contents of the pipes, and a
  schedule says which process moves next. A message is the tag together with the values
  written behind it up to the \<^verbatim>\<open>flush\<close>: the reader of a tag reads exactly those values,
  but for a worker out of work mode that is sent \<^verbatim>\<open>dequeue_accepted\<close> (see
  \<open>idle_mode_message\<close>).
  \<^verbatim>\<open>size_t\<close> is a natural number and \<^verbatim>\<open>double\<close> a real.
\<close>

subsection \<open>Messages\<close>

type_synonym Task = nat

type_synonym JobTask = "nat \<times> Task"

text \<open>The four \<^verbatim>\<open>enum class\<close>es; a constructor carries the payload that follows its tag.
  \<open>Q2M_retrieve_accepted\<close> is followed by \<open>N_tasks\<close> and the triples of the result map.\<close>

datatype M2Q_message = M2Q_terminate | M2Q_enqueue nat Task | M2Q_retrieve

datatype Q2M_message =
  Q2M_terminate | Q2M_retrieve_rejected | Q2M_retrieve_accepted nat "(JobTask \<times> real) list"

datatype W2Q_message = W2Q_terminate | W2Q_dequeue | W2Q_send_result nat Task real

datatype Q2W_message =
  Q2W_terminate | Q2W_dequeue_rejected | Q2W_dequeue_accepted nat Task
  | Q2W_update_parameter | Q2W_switch_work_mode | Q2W_result_received

datatype exception = runtime_error | logic_error

subsection \<open>\<^verbatim>\<open>std::map\<close>\<close>

text \<open>A \<^verbatim>\<open>std::map\<close> is the list of its entries in the order of the keys, which is the
  order of its iteration; \<open>map_assign m k v\<close> is \<^verbatim>\<open>m[k] = v\<close>, and \<open>map_index m k\<close> the
  value of \<^verbatim>\<open>m[k]\<close>, which is a zero \<^verbatim>\<open>double\<close> for a key the map does not hold.\<close>

fun map_assign :: "('k::linorder \<times> 'v) list \<Rightarrow> 'k \<Rightarrow> 'v \<Rightarrow> ('k \<times> 'v) list" where
  "map_assign [] k v = [(k, v)]"
| "map_assign ((k', v') # m) k v =
     (if k < k' then (k, v) # (k', v') # m
      else if k = k' then (k, v) # m
      else (k', v') # map_assign m k v)"

definition map_index :: "('k \<times> real) list \<Rightarrow> 'k \<Rightarrow> real" where
  "map_index m k = (case map_of m k of None \<Rightarrow> 0 | Some v \<Rightarrow> v)"

subsection \<open>The object and its static members\<close>

text \<open>The data members of an \<^verbatim>\<open>InterProcessQueueAndMessenger\<close> apart from the pipes, whose
  contents belong to the configuration. \<open>is_master\<close> and \<open>is_queue\<close> are the members
  \<^verbatim>\<open>_is_master\<close> and \<^verbatim>\<open>_is_queue\<close>; the head of \<open>queue\<close> is the front of the
  \<^verbatim>\<open>std::queue\<close>.\<close>

record InterProcessQueueAndMessenger =
  worker_id :: nat
  is_master :: bool
  is_queue :: bool
  queue :: "JobTask list"
  N_tasks :: nat
  results :: "(JobTask \<times> real) list"
  queue_activated :: bool

definition is_worker :: "InterProcessQueueAndMessenger \<Rightarrow> bool" where
  "is_worker q \<longleftrightarrow> \<not> (is_master q \<or> is_queue q)"

definition is_activated :: "InterProcessQueueAndMessenger \<Rightarrow> bool" where
  "is_activated q = queue_activated q"

text \<open>\<^verbatim>\<open>activate\<close> as the master and the workers run it: the flag is set. On the queue
  process it goes on into \<^verbatim>\<open>queue_loop\<close>, which is the queue's part of the configuration.\<close>

definition activate :: "InterProcessQueueAndMessenger \<Rightarrow> InterProcessQueueAndMessenger" where
  "activate q = q\<lparr>queue_activated := True\<rparr>"

text \<open>The static members \<^verbatim>\<open>job_objects\<close>, \<^verbatim>\<open>job_counter\<close> and \<^verbatim>\<open>_instance\<close> (\<open>instance_ptr\<close>) of one
  process; \<open>None\<close> is the expired \<^verbatim>\<open>weak_ptr\<close>. \<^verbatim>\<open>job_objects\<close> is a \<^verbatim>\<open>std::map\<close> of pointers:
  the entry \<open>(k, None)\<close> holds the null pointer.\<close>

record 'job manager_statics =
  job_objects :: "(nat \<times> 'job option) list"
  job_counter :: nat
  instance_ptr :: "InterProcessQueueAndMessenger option"

text \<open>\<^verbatim>\<open>m.erase(k)\<close>, and \<^verbatim>\<open>m[k]\<close> for a map of pointers: the value and the map, which gains a
  null entry for a key it did not hold.\<close>

definition map_erase :: "('k \<times> 'v) list \<Rightarrow> 'k \<Rightarrow> ('k \<times> 'v) list" where
  "map_erase m k = filter (\<lambda>entry. fst entry \<noteq> k) m"

definition map_subscript ::
  "('k::linorder \<times> 'v option) list \<Rightarrow> 'k \<Rightarrow> 'v option \<times> ('k \<times> 'v option) list" where
  "map_subscript m k =
     (case map_of m k of
        None \<Rightarrow> (None, map_assign m k None)
      | Some v \<Rightarrow> (v, m))"

text \<open>The three static functions of \<^verbatim>\<open>InterProcessQueueAndMessenger\<close> on the registry of jobs.
  \<^verbatim>\<open>add_job_object\<close> of this class does not look at the instance.\<close>

definition IPQM_add_job_object :: "'job \<Rightarrow> 'job manager_statics \<Rightarrow> nat \<times> 'job manager_statics" where
  "IPQM_add_job_object job_object st =
     (let job_id = job_counter st;
          st = st\<lparr>job_counter := job_counter st + 1\<rparr>;
          st = st\<lparr>job_objects := map_assign (job_objects st) job_id (Some job_object)\<rparr>
      in (job_id, st))"

definition IPQM_get_job_object ::
  "nat \<Rightarrow> 'job manager_statics \<Rightarrow> 'job option \<times> 'job manager_statics" where
  "IPQM_get_job_object job_object_id st =
     (case map_subscript (job_objects st) job_object_id of
        (job_object, m) \<Rightarrow> (job_object, st\<lparr>job_objects := m\<rparr>))"

definition IPQM_remove_job_object :: "nat \<Rightarrow> 'job manager_statics \<Rightarrow> bool \<times> 'job manager_statics" where
  "IPQM_remove_job_object job_object_id st =
     (map_of (job_objects st) job_object_id \<noteq> None,
      st\<lparr>job_objects := map_erase (job_objects st) job_object_id\<rparr>)"

subsection \<open>The registry of jobs of \<^verbatim>\<open>TaskManager\<close>\<close>

text \<open>\<^verbatim>\<open>TaskManager\<close> is the class the library builds from \<^verbatim>\<open>InterProcessQueueAndMessenger\<close>.
  Its declaration is not under the sources; the record holds the members that its
  functions on the registry read and write. \<^verbatim>\<open>_instance\<close> is a \<^verbatim>\<open>unique_ptr\<close>, \<open>None\<close> the
  null pointer.\<close>

record TaskManager =
  TaskManager_N_workers :: nat
  TaskManager_is_master :: bool
  TaskManager_is_queue :: bool
  TaskManager_queue_activated :: bool
  TaskManager_processes_initialized :: bool

record 'job TaskManager_statics =
  TaskManager_job_objects :: "(nat \<times> 'job option) list"
  TaskManager_job_counter :: nat
  TaskManager_instance :: "TaskManager option"

definition TaskManager_is_instantiated :: "'job TaskManager_statics \<Rightarrow> bool" where
  "TaskManager_is_instantiated st \<longleftrightarrow> TaskManager_instance st \<noteq> None"

definition TaskManager_is_activated :: "TaskManager \<Rightarrow> bool" where
  "TaskManager_is_activated tm = TaskManager_queue_activated tm"

text \<open>\<^verbatim>\<open>TaskManager::add_job_object\<close> throws \<^verbatim>\<open>std::logic_error\<close> when there is an instance and it
  is activated, and registers the job otherwise.\<close>

definition TaskManager_add_job_object ::
  "'job \<Rightarrow> 'job TaskManager_statics \<Rightarrow> exception + (nat \<times> 'job TaskManager_statics)" where
  "TaskManager_add_job_object job_object st =
     (if TaskManager_is_instantiated st \<and>
         (case TaskManager_instance st of
            None \<Rightarrow> False
          | Some tm \<Rightarrow> TaskManager_is_activated tm)
      then Inl logic_error
      else
        let job_id = TaskManager_job_counter st;
            st = st\<lparr>TaskManager_job_counter := TaskManager_job_counter st + 1\<rparr>;
            st = st\<lparr>TaskManager_job_objects :=
                     map_assign (TaskManager_job_objects st) job_id (Some job_object)\<rparr>
        in Inr (job_id, st))"

definition TaskManager_get_job_object ::
  "nat \<Rightarrow> 'job TaskManager_statics \<Rightarrow> 'job option \<times> 'job TaskManager_statics" where
  "TaskManager_get_job_object job_object_id st =
     (case map_subscript (TaskManager_job_objects st) job_object_id of
        (job_object, m) \<Rightarrow> (job_object, st\<lparr>TaskManager_job_objects := m\<rparr>))"

text \<open>\<^verbatim>\<open>TaskManager::remove_job_object\<close> resets the instance when the last job is gone.\<close>

definition TaskManager_remove_job_object ::
  "nat \<Rightarrow> 'job TaskManager_statics \<Rightarrow> bool \<times> 'job TaskManager_statics" where
  "TaskManager_remove_job_object job_object_id st =
     (let removed_succesfully = (map_of (TaskManager_job_objects st) job_object_id \<noteq> None);
          st = st\<lparr>TaskManager_job_objects := map_erase (TaskManager_job_objects st) job_object_id\<rparr>;
          st = (if length (TaskManager_job_objects st) = 0
                then st\<lparr>TaskManager_instance := None\<rparr> else st)
      in (removed_succesfully, st))"

subsection \<open>The queue and the messages the queue process handles\<close>

text \<open>\<^verbatim>\<open>from_queue\<close> returns \<^verbatim>\<open>false\<close>, here \<open>None\<close>, on an empty queue, and pops the front
  otherwise.\<close>

definition from_queue ::
  "InterProcessQueueAndMessenger \<Rightarrow> JobTask option \<times> InterProcessQueueAndMessenger" where
  "from_queue q =
     (if queue q = [] then (None, q)
      else (Some (hd (queue q)), q\<lparr>queue := tl (queue q)\<rparr>))"

text \<open>\<^verbatim>\<open>to_queue\<close>: the master activates if need be and sends the task to the queue process,
  the queue process pushes it, a worker throws. The result holds what was written to
  \<^verbatim>\<open>queue_pipe\<close>.\<close>

definition to_queue ::
  "JobTask \<Rightarrow> InterProcessQueueAndMessenger \<Rightarrow>
   exception + (M2Q_message list \<times> InterProcessQueueAndMessenger)" where
  "to_queue job_task q =
     (if is_master q then
        (let q = (if \<not> queue_activated q then activate q else q)
         in Inr ([M2Q_enqueue (fst job_task) (snd job_task)], q))
      else if is_queue q then Inr ([], q\<lparr>queue := queue q @ [job_task]\<rparr>)
      else Inl logic_error)"

text \<open>\<^verbatim>\<open>process_queue_pipe_message\<close>. The result is \<^verbatim>\<open>carry_on\<close>, what \<^verbatim>\<open>to_queue\<close> wrote to
  \<^verbatim>\<open>queue_pipe\<close> (nothing on the queue process), the replies written to the master, and the
  new state.\<close>

definition process_queue_pipe_message ::
  "M2Q_message \<Rightarrow> InterProcessQueueAndMessenger \<Rightarrow>
   exception + (bool \<times> M2Q_message list \<times> Q2M_message list \<times> InterProcessQueueAndMessenger)" where
  "process_queue_pipe_message message q =
     (case message of
        M2Q_terminate \<Rightarrow> Inr (False, [], [], q)
      | M2Q_enqueue job_object_id task \<Rightarrow>
          (case to_queue (job_object_id, task) q of
             Inl e \<Rightarrow> Inl e
           | Inr (sent, q') \<Rightarrow> Inr (True, sent, [], q'\<lparr>N_tasks := N_tasks q' + 1\<rparr>))
      | M2Q_retrieve \<Rightarrow>
          if queue q = [] \<and> length (results q) = N_tasks q
          then Inr (True, [], [Q2M_retrieve_accepted (N_tasks q) (results q)],
                    q\<lparr>results := [], N_tasks := 0\<rparr>)
          else Inr (True, [], [Q2M_retrieve_rejected], q))"

text \<open>\<^verbatim>\<open>process_worker_pipe_message\<close>: the replies written to the worker's pipe and the new
  state, or the exception thrown on a worker's \<^verbatim>\<open>terminate\<close>.\<close>

definition process_worker_pipe_message ::
  "W2Q_message \<Rightarrow> InterProcessQueueAndMessenger \<Rightarrow>
   exception + (Q2W_message list \<times> InterProcessQueueAndMessenger)" where
  "process_worker_pipe_message message q =
     (case message of
        W2Q_dequeue \<Rightarrow>
          (case from_queue q of
             (Some job_task, q') \<Rightarrow> Inr ([Q2W_dequeue_accepted (fst job_task) (snd job_task)], q')
           | (None, q') \<Rightarrow> Inr ([Q2W_dequeue_rejected], q'))
      | W2Q_send_result job_object_id task result \<Rightarrow>
          Inr ([Q2W_result_received],
               q\<lparr>results := map_assign (results q) (job_object_id, task) result\<rparr>)
      | W2Q_terminate \<Rightarrow> Inl runtime_error)"

subsection \<open>The job of the test: \<^verbatim>\<open>xSquaredPlusBVectorSerial\<close> and its parallel subclass\<close>

text \<open>The fields \<^verbatim>\<open>_b\<close>, \<^verbatim>\<open>x\<close> and \<^verbatim>\<open>result\<close>, under names that leave \<open>x\<close> and \<open>result\<close> free
  for variables. The constructor sizes \<^verbatim>\<open>result\<close> to \<^verbatim>\<open>x.size()\<close>.\<close>

record xSquaredPlusBVector =
  xsq_b :: real
  xsq_x :: "real list"
  xsq_result :: "real list"

definition xSquaredPlusBVectorSerial :: "real \<Rightarrow> real list \<Rightarrow> xSquaredPlusBVector" where
  "xSquaredPlusBVectorSerial b x_init =
     \<lparr>xsq_b = b, xsq_x = x_init, xsq_result = replicate (length x_init) 0\<rparr>"

text \<open>The serial \<^verbatim>\<open>evaluate\<close> and \<^verbatim>\<open>get_result\<close>.\<close>

definition evaluate_serial :: "xSquaredPlusBVector \<Rightarrow> xSquaredPlusBVector" where
  "evaluate_serial job =
     fold (\<lambda>ix j. j\<lparr>xsq_result := (xsq_result j)[ix := (xsq_x j ! ix)\<^sup>2 + xsq_b j]\<rparr>)
       [0..<length (xsq_x job)] job"

definition get_result_serial :: "xSquaredPlusBVector \<Rightarrow> real list" where
  "get_result_serial job = xsq_result (evaluate_serial job)"

text \<open>\<^verbatim>\<open>evaluate_task\<close> and \<^verbatim>\<open>get_task_result\<close> of the parallel subclass, run by a worker.
  An index outside the vectors is undefined behaviour in C++, here \<open>None\<close>.\<close>

definition evaluate_task :: "Task \<Rightarrow> xSquaredPlusBVector \<Rightarrow> xSquaredPlusBVector option" where
  "evaluate_task task job =
     (if task < length (xsq_x job) \<and> task < length (xsq_result job)
      then Some (job\<lparr>xsq_result := (xsq_result job)[task := (xsq_x job ! task)\<^sup>2 + xsq_b job]\<rparr>)
      else None)"

definition get_task_result :: "Task \<Rightarrow> xSquaredPlusBVector \<Rightarrow> real" where
  "get_task_result task job = xsq_result job ! task"

subsection \<open>A worker: \<^verbatim>\<open>Job::worker_loop\<close>\<close>

text \<open>Where a worker stands in \<^verbatim>\<open>worker_loop\<close>: at the head of the loop, blocked in one of
  its three reads, or gone (the loop left, an exception thrown, a null job called).
  \<open>Worker_out_of_frame\<close> is a worker that has read a tag and left the values behind it in
  the pipe: its next read takes their bytes for a tag, which the messages of this model do
  not follow.\<close>

datatype worker_pc =
  Loop_top | Await_dequeue_reply | Await_result_received | Await_message
  | Worker_exited | Worker_thrown exception | Worker_crashed | Worker_out_of_frame

text \<open>A worker process: the static \<^verbatim>\<open>work_mode\<close>, its place in the loop, its copy of
  \<^verbatim>\<open>job_objects\<close>, and the two directions of its pipe with what is written and not yet
  read.\<close>

record worker_process =
  work_mode :: bool
  worker_pc :: worker_pc
  worker_job_objects :: "nat \<rightharpoonup> xSquaredPlusBVector"
  pipe_to_queue :: "W2Q_message list"
  pipe_from_queue :: "Q2W_message list"

text \<open>The \<^verbatim>\<open>switch\<close> of the work mode, after the reply to \<^verbatim>\<open>dequeue\<close> was read.\<close>

definition work_mode_message :: "Q2W_message \<Rightarrow> worker_process \<Rightarrow> worker_process" where
  "work_mode_message message_q2w w =
     (case message_q2w of
        Q2W_terminate \<Rightarrow> w\<lparr>worker_pc := Worker_exited\<rparr>
      | Q2W_dequeue_rejected \<Rightarrow> w\<lparr>worker_pc := Loop_top\<rparr>
      | Q2W_dequeue_accepted job_object_id task \<Rightarrow>
          (case worker_job_objects w job_object_id of
             None \<Rightarrow> w\<lparr>worker_pc := Worker_crashed\<rparr>
           | Some job \<Rightarrow>
               (case evaluate_task task job of
                  None \<Rightarrow> w\<lparr>worker_pc := Worker_crashed\<rparr>
                | Some job' \<Rightarrow>
                    w\<lparr>worker_job_objects := (worker_job_objects w)(job_object_id \<mapsto> job'),
                      pipe_to_queue := pipe_to_queue w
                        @ [W2Q_send_result job_object_id task (get_task_result task job')],
                      worker_pc := Await_result_received\<rparr>))
      | Q2W_switch_work_mode \<Rightarrow> w\<lparr>work_mode := False, worker_pc := Loop_top\<rparr>
      | Q2W_update_parameter \<Rightarrow> w\<lparr>worker_pc := Loop_top\<rparr>
      | Q2W_result_received \<Rightarrow> w\<lparr>worker_pc := Loop_top\<rparr>)"

text \<open>The \<^verbatim>\<open>switch\<close> of the other mode. \<^verbatim>\<open>dequeue_accepted\<close> shares the branch of
  \<^verbatim>\<open>dequeue_rejected\<close>, which reads nothing: the job id and the task stay in the pipe.\<close>

definition idle_mode_message :: "Q2W_message \<Rightarrow> worker_process \<Rightarrow> worker_process" where
  "idle_mode_message message_q2w w =
     (case message_q2w of
        Q2W_terminate \<Rightarrow>
          w\<lparr>pipe_to_queue := pipe_to_queue w @ [W2Q_terminate], worker_pc := Worker_exited\<rparr>
      | Q2W_update_parameter \<Rightarrow> w\<lparr>worker_pc := Loop_top\<rparr>
      | Q2W_switch_work_mode \<Rightarrow> w\<lparr>work_mode := True, worker_pc := Loop_top\<rparr>
      | Q2W_dequeue_accepted job_object_id task \<Rightarrow> w\<lparr>worker_pc := Worker_out_of_frame\<rparr>
      | Q2W_dequeue_rejected \<Rightarrow> w\<lparr>worker_pc := Loop_top\<rparr>
      | Q2W_result_received \<Rightarrow> w\<lparr>worker_pc := Loop_top\<rparr>)"

text \<open>One move of a worker, up to its next read; \<open>None\<close> when it is blocked on an empty
  pipe or gone.\<close>

definition worker_loop_step :: "worker_process \<Rightarrow> worker_process option" where
  "worker_loop_step w =
     (case worker_pc w of
        Loop_top \<Rightarrow>
          if work_mode w
          then Some (w\<lparr>pipe_to_queue := pipe_to_queue w @ [W2Q_dequeue],
                       worker_pc := Await_dequeue_reply\<rparr>)
          else Some (w\<lparr>worker_pc := Await_message\<rparr>)
      | Await_dequeue_reply \<Rightarrow>
          (case pipe_from_queue w of
             [] \<Rightarrow> None
           | message_q2w # rest \<Rightarrow>
               Some (work_mode_message message_q2w (w\<lparr>pipe_from_queue := rest\<rparr>)))
      | Await_result_received \<Rightarrow>
          (case pipe_from_queue w of
             [] \<Rightarrow> None
           | message_q2w # rest \<Rightarrow>
               Some (if message_q2w \<noteq> Q2W_result_received
                     then w\<lparr>pipe_from_queue := rest, worker_pc := Worker_thrown runtime_error\<rparr>
                     else w\<lparr>pipe_from_queue := rest, worker_pc := Loop_top\<rparr>))
      | Await_message \<Rightarrow>
          (case pipe_from_queue w of
             [] \<Rightarrow> None
           | message_q2w # rest \<Rightarrow>
               Some (idle_mode_message message_q2w (w\<lparr>pipe_from_queue := rest\<rparr>)))
      | Worker_exited \<Rightarrow> None
      | Worker_thrown e \<Rightarrow> None
      | Worker_crashed \<Rightarrow> None
      | Worker_out_of_frame \<Rightarrow> None)"

subsection \<open>The master: \<^verbatim>\<open>evaluate\<close> of the parallel job\<close>

text \<open>Where the master stands in \<^verbatim>\<open>evaluate\<close>: before the \<^verbatim>\<open>to_queue\<close> of task \<open>ix\<close>, in
  \<^verbatim>\<open>retrieve\<close> before its request or blocked on the handshake, or returned from
  \<^verbatim>\<open>get_result\<close> with the vector.\<close>

datatype master_pc =
  Enqueue_next nat | Retrieve_send | Retrieve_wait | Returned "real list"
  | Master_thrown exception

record master_process =
  master_ipqm :: InterProcessQueueAndMessenger
  master_job :: xSquaredPlusBVector
  job_id :: nat
  ipqm_results :: "(Task \<times> real) list"
  retrieved :: bool
  master_pc :: master_pc

text \<open>\<^verbatim>\<open>retrieve\<close> after \<^verbatim>\<open>retrieve_accepted\<close>: \<open>N_tasks\<close> is read and then as many triples,
  each stored in \<^verbatim>\<open>results\<close>. With fewer triples in the pipe the master would stay in
  its read: \<open>None\<close>.\<close>

definition retrieve_accepted ::
  "nat \<Rightarrow> (JobTask \<times> real) list \<Rightarrow> InterProcessQueueAndMessenger \<Rightarrow>
   InterProcessQueueAndMessenger option" where
  "retrieve_accepted n items q =
     (if n \<le> length items
      then Some (q\<lparr>N_tasks := n,
                   results := fold (\<lambda>item m. map_assign m (fst item) (snd item))
                                (take n items) (results q)\<rparr>)
      else None)"

text \<open>The rest of \<^verbatim>\<open>gather_worker_results\<close> and of \<^verbatim>\<open>evaluate\<close> after \<^verbatim>\<open>retrieve\<close>: the
  results of this job go to \<^verbatim>\<open>ipqm_results\<close>, and \<^verbatim>\<open>result[ix] = ipqm_results[ix]\<close>.\<close>

definition gather_results :: "master_process \<Rightarrow> master_process" where
  "gather_results m =
     m\<lparr>ipqm_results :=
         fold (\<lambda>item r. if fst (fst item) = job_id m
                         then map_assign r (snd (fst item)) (snd item) else r)
           (results (master_ipqm m)) (ipqm_results m)\<rparr>"

definition copy_results :: "master_process \<Rightarrow> master_process" where
  "copy_results m =
     (let job = fold (\<lambda>ix j. j\<lparr>xsq_result := (xsq_result j)[ix := map_index (ipqm_results m) ix]\<rparr>)
                  [0..<length (xsq_x (master_job m))] (master_job m)
      in m\<lparr>master_job := job, master_pc := Returned (xsq_result job)\<rparr>)"

text \<open>One move of the master, given the pipe from the queue: the new state, what it wrote
  to the queue and what is left to read; \<open>None\<close> when it is blocked or has returned.\<close>

definition master_step ::
  "master_process \<Rightarrow> Q2M_message list \<Rightarrow>
   (master_process \<times> M2Q_message list \<times> Q2M_message list) option" where
  "master_step m from_queue_pipe =
     (case master_pc m of
        Enqueue_next ix \<Rightarrow>
          if ix < length (xsq_x (master_job m)) then
            (case to_queue (job_id m, ix) (master_ipqm m) of
               Inl e \<Rightarrow> Some (m\<lparr>master_pc := Master_thrown e\<rparr>, [], from_queue_pipe)
             | Inr (sent, q) \<Rightarrow>
                 Some (m\<lparr>master_ipqm := q, master_pc := Enqueue_next (ix + 1)\<rparr>, sent,
                       from_queue_pipe))
          else if \<not> retrieved m then
            (if is_master (master_ipqm m)
             then Some (m\<lparr>master_pc := Retrieve_send\<rparr>, [], from_queue_pipe)
             else Some (copy_results (gather_results m), [], from_queue_pipe))
          else Some (copy_results m, [], from_queue_pipe)
      | Retrieve_send \<Rightarrow> Some (m\<lparr>master_pc := Retrieve_wait\<rparr>, [M2Q_retrieve], from_queue_pipe)
      | Retrieve_wait \<Rightarrow>
          (case from_queue_pipe of
             [] \<Rightarrow> None
           | handshake # rest \<Rightarrow>
               (case handshake of
                  Q2M_retrieve_accepted n items \<Rightarrow>
                    (case retrieve_accepted n items (master_ipqm m) of
                       None \<Rightarrow> None
                     | Some q \<Rightarrow>
                         Some (copy_results (gather_results (m\<lparr>master_ipqm := q\<rparr>)), [], rest))
                | Q2M_retrieve_rejected \<Rightarrow> Some (m\<lparr>master_pc := Retrieve_send\<rparr>, [], rest)
                | Q2M_terminate \<Rightarrow> Some (m\<lparr>master_pc := Retrieve_send\<rparr>, [], rest)))
      | Returned r \<Rightarrow> None
      | Master_thrown e \<Rightarrow> None)"

subsection \<open>The configuration of the processes and its moves\<close>

datatype queue_pc = Queue_loop | Queue_exited | Queue_thrown exception

record system =
  master :: master_process
  queue_process :: InterProcessQueueAndMessenger
  queue_pc :: queue_pc
  workers :: "worker_process list"
  m2q_pipe :: "M2Q_message list"
  q2m_pipe :: "Q2M_message list"

text \<open>\<^verbatim>\<open>terminate_workers\<close>: the queue process writes \<^verbatim>\<open>terminate\<close> to every worker.\<close>

definition terminate_workers ::
  "InterProcessQueueAndMessenger \<Rightarrow> worker_process list \<Rightarrow> worker_process list" where
  "terminate_workers q ws =
     (if is_queue q
      then map (\<lambda>w. w\<lparr>pipe_from_queue := pipe_from_queue w @ [Q2W_terminate]\<rparr>) ws
      else ws)"

text \<open>\<^verbatim>\<open>queue_loop\<close> reads one message from the pipe of worker \<open>k\<close> and handles it: the
  message read, the replies written to that worker, and the configuration after the
  move; \<open>None\<close> when the loop has ended or the pipe is empty.\<close>

definition queue_reads_worker ::
  "nat \<Rightarrow> system \<Rightarrow> (W2Q_message \<times> Q2W_message list \<times> system) option" where
  "queue_reads_worker k s =
     (if queue_pc s \<noteq> Queue_loop \<or> \<not> k < length (workers s) then None
      else case pipe_to_queue (workers s ! k) of
        [] \<Rightarrow> None
      | message # rest \<Rightarrow>
          (case process_worker_pipe_message message (queue_process s) of
             Inl e \<Rightarrow>
               Some (message, [],
                 s\<lparr>workers := (workers s)[k := (workers s ! k)\<lparr>pipe_to_queue := rest\<rparr>],
                   queue_pc := Queue_thrown e\<rparr>)
           | Inr (replies, q) \<Rightarrow>
               Some (message, replies,
                 s\<lparr>workers := (workers s)[k := (workers s ! k)
                      \<lparr>pipe_to_queue := rest,
                       pipe_from_queue := pipe_from_queue (workers s ! k) @ replies\<rparr>],
                   queue_process := q\<rparr>)))"

text \<open>The moves. \<^verbatim>\<open>queue_loop\<close> reads one message from the pipe of the master or from that
  of a worker and handles it; a \<^verbatim>\<open>terminate\<close> of the master ends the loop, and
  \<^verbatim>\<open>activate\<close> goes on to \<^verbatim>\<open>terminate_workers\<close> and leaves. The order in which
  \<^verbatim>\<open>queue_loop\<close> finds its pipes readable is the schedule's.\<close>

datatype actor = Master | Queue_reads_master | Queue_reads_worker nat | Worker nat

definition system_step :: "actor \<Rightarrow> system \<Rightarrow> system" where
  "system_step a s =
     (case a of
        Master \<Rightarrow>
          (case master_step (master s) (q2m_pipe s) of
             None \<Rightarrow> s
           | Some (m, sent, rest) \<Rightarrow>
               s\<lparr>master := m, m2q_pipe := m2q_pipe s @ sent, q2m_pipe := rest\<rparr>)
      | Queue_reads_master \<Rightarrow>
          (if queue_pc s \<noteq> Queue_loop then s
           else case m2q_pipe s of
             [] \<Rightarrow> s
           | message # rest \<Rightarrow>
               (case process_queue_pipe_message message (queue_process s) of
                  Inl e \<Rightarrow> s\<lparr>m2q_pipe := rest, queue_pc := Queue_thrown e\<rparr>
                | Inr (carry_on, sent, replies, q) \<Rightarrow>
                    if carry_on
                    then s\<lparr>m2q_pipe := rest, q2m_pipe := q2m_pipe s @ replies, queue_process := q\<rparr>
                    else s\<lparr>m2q_pipe := rest, q2m_pipe := q2m_pipe s @ replies, queue_process := q,
                           workers := terminate_workers q (workers s), queue_pc := Queue_exited\<rparr>))
      | Queue_reads_worker k \<Rightarrow>
          (case queue_reads_worker k s of
             None \<Rightarrow> s
           | Some (message, replies, s') \<Rightarrow> s')
      | Worker k \<Rightarrow>
          (if \<not> k < length (workers s) then s
           else case worker_loop_step (workers s ! k) of
             None \<Rightarrow> s
           | Some w \<Rightarrow> s\<lparr>workers := (workers s)[k := w]\<rparr>))"

definition run :: "actor list \<Rightarrow> system \<Rightarrow> system" where
  "run schedule s = fold system_step schedule s"

text \<open>The configuration when the master enters the loop of \<^verbatim>\<open>evaluate\<close>: the constructor
  of the manager has forked \<open>N_workers\<close> workers and the queue process, \<^verbatim>\<open>ipqm()\<close> has
  activated, every process holds its copy of the job, registered under \<open>jid\<close>, and the
  pipes are empty. \<^verbatim>\<open>worker_id\<close> is the last index of the constructor's loop in the master
  and in the queue process.\<close>

definition forked_ipqm :: "nat \<Rightarrow> bool \<Rightarrow> bool \<Rightarrow> InterProcessQueueAndMessenger" where
  "forked_ipqm N_workers as_master as_queue =
     \<lparr>worker_id = N_workers - 1, is_master = as_master, is_queue = as_queue, queue = [],
      N_tasks = 0, results = [], queue_activated = True\<rparr>"

definition forked_worker :: "nat \<Rightarrow> xSquaredPlusBVector \<Rightarrow> worker_process" where
  "forked_worker jid job =
     \<lparr>work_mode = True, worker_pc = Loop_top, worker_job_objects = [jid \<mapsto> job],
      pipe_to_queue = [], pipe_from_queue = []\<rparr>"

definition forked_system :: "nat \<Rightarrow> nat \<Rightarrow> xSquaredPlusBVector \<Rightarrow> system" where
  "forked_system N_workers jid job =
     \<lparr>master = \<lparr>master_ipqm = forked_ipqm N_workers True False, master_job = job, job_id = jid,
                 ipqm_results = [], retrieved = False, master_pc = Enqueue_next 0\<rparr>,
      queue_process = forked_ipqm N_workers False True,
      queue_pc = Queue_loop,
      workers = replicate N_workers (forked_worker jid job),
      m2q_pipe = [], q2m_pipe = []\<rparr>"

text \<open>The job of the test case and a schedule that lets every process move in turn:
  the master, the queue for the master's pipe, then every worker followed by the queue
  for that worker's pipe.\<close>

definition test_job :: xSquaredPlusBVector where
  "test_job = xSquaredPlusBVectorSerial 3 [0, 1, 2, 3]"

definition round :: "nat \<Rightarrow> actor list" where
  "round N_workers =
     Master # Queue_reads_master # concat (map (\<lambda>k. [Worker k, Queue_reads_worker k]) [0..<N_workers])"

definition round_robin :: "nat \<Rightarrow> nat \<Rightarrow> actor list" where
  "round_robin N_workers rounds = concat (replicate rounds (round N_workers))"

subsection \<open>What is in flight, and what a run of the job keeps true\<close>

text \<open>The tasks and the results that the messages of a pipe carry.\<close>

fun m2q_tasks :: "M2Q_message list \<Rightarrow> JobTask list" where
  "m2q_tasks [] = []"
| "m2q_tasks (M2Q_enqueue j t # ms) = (j, t) # m2q_tasks ms"
| "m2q_tasks (_ # ms) = m2q_tasks ms"

fun q2w_tasks :: "Q2W_message list \<Rightarrow> JobTask list" where
  "q2w_tasks [] = []"
| "q2w_tasks (Q2W_dequeue_accepted j t # ms) = (j, t) # q2w_tasks ms"
| "q2w_tasks (_ # ms) = q2w_tasks ms"

fun w2q_results :: "W2Q_message list \<Rightarrow> (JobTask \<times> real) list" where
  "w2q_results [] = []"
| "w2q_results (W2Q_send_result j t r # ms) = ((j, t), r) # w2q_results ms"
| "w2q_results (_ # ms) = w2q_results ms"

text \<open>A task of the job registered under \<open>jid\<close>, and a result that is the value of its task.\<close>

definition valid_task :: "nat \<Rightarrow> xSquaredPlusBVector \<Rightarrow> JobTask \<Rightarrow> bool" where
  "valid_task jid job jt \<longleftrightarrow> fst jt = jid \<and> snd jt < length (xsq_x job)"

definition valid_result :: "nat \<Rightarrow> xSquaredPlusBVector \<Rightarrow> JobTask \<times> real \<Rightarrow> bool" where
  "valid_result jid job item \<longleftrightarrow>
     valid_task jid job (fst item) \<and> snd item = (xsq_x job ! snd (fst item))\<^sup>2 + xsq_b job"

definition enqueue_messages :: "nat \<Rightarrow> xSquaredPlusBVector \<Rightarrow> M2Q_message list \<Rightarrow> bool" where
  "enqueue_messages jid job ms \<longleftrightarrow>
     list_all (\<lambda>m. case m of M2Q_enqueue j t \<Rightarrow> valid_task jid job (j, t) | _ \<Rightarrow> False) ms"

text \<open>The entries of a \<^verbatim>\<open>std::map\<close> stand in the strict order of their keys.\<close>

definition map_ordered :: "('k::linorder \<times> 'v) list \<Rightarrow> bool" where
  "map_ordered m \<longleftrightarrow> sorted_wrt (<) (map fst m)"

text \<open>A worker holds the job, with the vectors of the master's, and its pipe carries tasks
  and results of the job only.\<close>

definition worker_ok :: "nat \<Rightarrow> xSquaredPlusBVector \<Rightarrow> worker_process \<Rightarrow> bool" where
  "worker_ok jid job w \<longleftrightarrow>
     (case worker_job_objects w jid of
        None \<Rightarrow> False
      | Some j \<Rightarrow> xsq_x j = xsq_x job \<and> xsq_b j = xsq_b job \<and>
                  length (xsq_result j) = length (xsq_x job)) \<and>
     list_all (valid_task jid job) (q2w_tasks (pipe_from_queue w)) \<and>
     list_all (valid_result jid job) (w2q_results (pipe_to_queue w))"

text \<open>What holds of the processes other than the master while the master is in
  \<^verbatim>\<open>evaluate\<close>.\<close>

definition processes_ok :: "nat \<Rightarrow> xSquaredPlusBVector \<Rightarrow> system \<Rightarrow> bool" where
  "processes_ok jid job s \<longleftrightarrow>
     is_queue (queue_process s) \<and> \<not> is_master (queue_process s) \<and>
     list_all (valid_task jid job) (queue (queue_process s)) \<and>
     list_all (valid_result jid job) (results (queue_process s)) \<and>
     map_ordered (results (queue_process s)) \<and>
     list_all (worker_ok jid job) (workers s) \<and>
     is_master (master_ipqm (master s)) \<and>
     job_id (master s) = jid \<and>
     xsq_x (master_job (master s)) = xsq_x job \<and>
     xsq_b (master_job (master s)) = xsq_b job \<and>
     length (xsq_result (master_job (master s))) = length (xsq_x job) \<and>
     \<not> retrieved (master s) \<and>
     ipqm_results (master s) = [] \<and>
     results (master_ipqm (master s)) = []"

text \<open>The pipe between master and queue while the master waits for its handshake: the
  request behind the last tasks, or a rejection, or the accepted results of all tasks.\<close>

definition handshake_pending :: "nat \<Rightarrow> xSquaredPlusBVector \<Rightarrow> system \<Rightarrow> bool" where
  "handshake_pending jid job s \<longleftrightarrow>
     (q2m_pipe s = [] \<and> m2q_pipe s \<noteq> [] \<and> last (m2q_pipe s) = M2Q_retrieve \<and>
      enqueue_messages jid job (butlast (m2q_pipe s)) \<and>
      N_tasks (queue_process s) + length (butlast (m2q_pipe s)) = length (xsq_x job)) \<or>
     (m2q_pipe s = [] \<and> q2m_pipe s = [Q2M_retrieve_rejected] \<and>
      N_tasks (queue_process s) = length (xsq_x job)) \<or>
     (m2q_pipe s = [] \<and>
      (\<exists>items. q2m_pipe s = [Q2M_retrieve_accepted (length (xsq_x job)) items] \<and>
         length items = length (xsq_x job) \<and> map_ordered items \<and>
         list_all (valid_result jid job) items))"

text \<open>The invariant of a run, by the place of the master.\<close>

definition run_invariant :: "nat \<Rightarrow> xSquaredPlusBVector \<Rightarrow> system \<Rightarrow> bool" where
  "run_invariant jid job s \<longleftrightarrow>
     (case master_pc (master s) of
        Enqueue_next ix \<Rightarrow>
          processes_ok jid job s \<and> ix \<le> length (xsq_x job) \<and> q2m_pipe s = [] \<and>
          enqueue_messages jid job (m2q_pipe s) \<and>
          N_tasks (queue_process s) + length (m2q_pipe s) = ix
      | Retrieve_send \<Rightarrow>
          processes_ok jid job s \<and> q2m_pipe s = [] \<and>
          enqueue_messages jid job (m2q_pipe s) \<and>
          N_tasks (queue_process s) + length (m2q_pipe s) = length (xsq_x job)
      | Retrieve_wait \<Rightarrow> processes_ok jid job s \<and> handshake_pending jid job s
      | Returned r \<Rightarrow> r = get_result_serial job
      | Master_thrown e \<Rightarrow> False)"

subsection \<open>Concrete states of the manager\<close>

text \<open>A queue process that holds the one result of its one task, and the static members
  of a master whose manager has been activated and holds no job yet, for each of the two
  classes.\<close>

definition queue_example :: InterProcessQueueAndMessenger where
  "queue_example = (forked_ipqm 1 False True)\<lparr>N_tasks := 1, results := [((0, 0), 3)]\<rparr>"

definition activated_statics :: "xSquaredPlusBVector manager_statics" where
  "activated_statics =
     \<lparr>job_objects = [], job_counter = 0,
      instance_ptr = Some (activate (forked_ipqm 1 True False))\<rparr>"

definition activated_TaskManager_statics :: "xSquaredPlusBVector TaskManager_statics" where
  "activated_TaskManager_statics =
     \<lparr>TaskManager_job_objects = [], TaskManager_job_counter = 0,
      TaskManager_instance =
        Some \<lparr>TaskManager_N_workers = 1, TaskManager_is_master = True, TaskManager_is_queue = False,
              TaskManager_queue_activated = True, TaskManager_processes_initialized = True\<rparr>\<rparr>"

subsection \<open>What an observer of a run sees\<close>

text \<open>The tasks a move of the master sends to the queue, the tasks a move of the queue
  hands to worker \<open>k\<close> in a \<^verbatim>\<open>dequeue_accepted\<close>, and the tasks whose result a move of the
  queue takes from a worker and stores.\<close>

definition enqueued_by :: "actor \<Rightarrow> system \<Rightarrow> JobTask list" where
  "enqueued_by a s =
     (case a of
        Master \<Rightarrow>
          (case master_step (master s) (q2m_pipe s) of
             None \<Rightarrow> []
           | Some (m, sent, rest) \<Rightarrow> m2q_tasks sent)
      | _ \<Rightarrow> [])"

definition delivered_by :: "actor \<Rightarrow> system \<Rightarrow> (nat \<times> JobTask) list" where
  "delivered_by a s =
     (case a of
        Queue_reads_worker k \<Rightarrow>
          (case queue_reads_worker k s of
             None \<Rightarrow> []
           | Some (message, replies, s') \<Rightarrow> map (Pair k) (q2w_tasks replies))
      | _ \<Rightarrow> [])"

definition recorded_by :: "actor \<Rightarrow> system \<Rightarrow> JobTask list" where
  "recorded_by a s =
     (case a of
        Queue_reads_worker k \<Rightarrow>
          (case queue_reads_worker k s of
             None \<Rightarrow> []
           | Some (message, replies, s') \<Rightarrow> map fst (w2q_results [message]))
      | _ \<Rightarrow> [])"

text \<open>The three logs of a schedule run from a configuration.\<close>

fun enqueued :: "actor list \<Rightarrow> system \<Rightarrow> JobTask list" where
  "enqueued [] s = []"
| "enqueued (a # schedule) s = enqueued_by a s @ enqueued schedule (system_step a s)"

fun deliveries :: "actor list \<Rightarrow> system \<Rightarrow> (nat \<times> JobTask) list" where
  "deliveries [] s = []"
| "deliveries (a # schedule) s = delivered_by a s @ deliveries schedule (system_step a s)"

fun recordings :: "actor list \<Rightarrow> system \<Rightarrow> JobTask list" where
  "recordings [] s = []"
| "recordings (a # schedule) s = recorded_by a s @ recordings schedule (system_step a s)"

text \<open>The tasks on their way between the queue and a worker: handed out and not yet read,
  or computed and not yet stored.\<close>

definition worker_tokens :: "worker_process \<Rightarrow> JobTask multiset" where
  "worker_tokens w =
     mset (map fst (w2q_results (pipe_to_queue w))) + mset (q2w_tasks (pipe_from_queue w))"

definition in_flight :: "worker_process list \<Rightarrow> JobTask multiset" where
  "in_flight ws = sum_list (map worker_tokens ws)"

definition sent_count :: "xSquaredPlusBVector \<Rightarrow> master_pc \<Rightarrow> nat" where
  "sent_count job pc = (case pc of Enqueue_next ix \<Rightarrow> ix | _ \<Rightarrow> length (xsq_x job))"

definition accepted_phase :: "system \<Rightarrow> bool" where
  "accepted_phase s \<longleftrightarrow>
     (\<exists>r. master_pc (master s) = Returned r) \<or>
     (master_pc (master s) = Retrieve_wait \<and>
      (\<exists>n items. q2m_pipe s = [Q2M_retrieve_accepted n items]))"

text \<open>What the logs \<open>E\<close>, \<open>D\<close> and \<open>R\<close> of a run have to do with the configuration it
  reached.\<close>

definition trace_invariant ::
  "nat \<Rightarrow> xSquaredPlusBVector \<Rightarrow> system \<Rightarrow> JobTask list \<Rightarrow> (nat \<times> JobTask) list \<Rightarrow>
   JobTask list \<Rightarrow> bool" where
  "trace_invariant jid job s E D R \<longleftrightarrow>
     is_queue (queue_process s) \<and> \<not> is_master (queue_process s) \<and>
     E = map (Pair jid) [0..<sent_count job (master_pc (master s))] \<and>
     mset (map snd D) + mset (queue (queue_process s)) + mset (m2q_tasks (m2q_pipe s)) = mset E \<and>
     mset R + in_flight (workers s) \<subseteq># mset (map snd D) \<and>
     set (map fst (results (queue_process s))) \<subseteq> set R \<and>
     (if accepted_phase s then mset E \<subseteq># mset R else True)"

section \<open>Properties of the gradient kernel\<close>

subsection \<open>The step of a cycle\<close>

lemma eps2_eq: "eps2 = 1 / 2 ^ 26"
  unfolding eps2_def eps_def
  by (simp add: real_sqrt_divide real_sqrt_power[symmetric] flip: power_mult)

lemma eps2_pos: "0 < eps2"
  by (simp add: eps2_eq)

lemma vrysml_pos: "0 < vrysml"
  by (simp add: vrysml_def eps_def)

lemma vrysml_small: "vrysml < 1 / 2"
  by (simp add: vrysml_def eps_def)

lemma clamp_above: "(if (s::real) > m then m else s) = min m s"
  by (simp add: min_def)

lemma clamp_below: "(if (s::real) < m then m else s) = max m s"
  by (simp add: max_def)


lemma sqrt_quotient_Finite:
  assumes "0 < den" and "0 \<le> num"
  shows "sqrt_quotient num den = Finite (sqrt (num / den))"
  using assms by (simp add: sqrt_quotient_def not_less)


lemma cycle_step_cases:
  "cycle_step dfmin epspri g2_i gstep_i x_i =
     (case sqrt_quotient dfmin (\<bar>g2_i\<bar> + epspri) of
        NaN \<Rightarrow> None
      | Infinite \<Rightarrow> Some (max (max vrysml (8 * \<bar>eps2 * x_i\<bar>)) (10 * \<bar>gstep_i\<bar>))
      | Finite optstp \<Rightarrow>
          Some (max (max vrysml (8 * \<bar>eps2 * x_i\<bar>))
                  (min (10 * \<bar>gstep_i\<bar>) (max optstp \<bar>0.1 * gstep_i\<bar>))))"
  unfolding cycle_step_def Let_def clamp_above clamp_below
  by (rule refl)






lemma sqrt_16: "sqrt 16 = 4"
  using real_sqrt_abs [of 4] by simp

lemma example_quotient: "sqrt_quotient (16 * eps2) eps2 = Finite 4"
  using eps2_pos by (simp add: sqrt_quotient_def sqrt_16)

lemma example_step: "cycle_step (16 * eps2) eps2 0 1 0 = Some 4"
  using vrysml_pos vrysml_small
  by (simp add: cycle_step_cases example_quotient)




text \<open>
  C1 (amended). \<^verbatim>\<open>NumericalDerivatorMinuit2::Differentiate\<close> has no clamp to \<open>0.5\<close>: in every
  cycle its step is the candidate \<open>max(optstp, |0.1 * gstep_i|)\<close> under the upper clamp
  \<open>10 * |gstep_i|\<close> and then the lower clamp \<open>max(vrysml, 8 * |eps2 * x_i|)\<close>, whatever the
  limits of the parameter. The clamp of the candidate to at most \<open>0.5\<close> for a parameter
  with limits, applied before those two clamps, is that of
  \<^verbatim>\<open>Numerical2PGradientCalculator::operator()\<close>; without limits that calculator chooses the
  step as \<^verbatim>\<open>Differentiate\<close> does. Here \<open>optstp\<close> is the square root of
  \<open>dfmin / (|g2_i| + epspri)\<close> whenever \<open>dfmin\<close> is not negative and the denominator positive;
  an infinite \<open>optstp\<close> falls to the first clamp above it, and a NaN one makes the step NaN in
  both.
\<close>

theorem step_clamp_order:
  "cycle_step dfmin epspri g2_i gstep_i x_i =
     (case sqrt_quotient dfmin (\<bar>g2_i\<bar> + epspri) of
        NaN \<Rightarrow> None
      | Infinite \<Rightarrow> Some (max (max vrysml (8 * \<bar>eps2 * x_i\<bar>)) (10 * \<bar>gstep_i\<bar>))
      | Finite optstp \<Rightarrow>
          Some (max (max vrysml (8 * \<bar>eps2 * x_i\<bar>))
                  (min (10 * \<bar>gstep_i\<bar>) (max optstp \<bar>0.1 * gstep_i\<bar>)))) \<and>
   Numerical2P_cycle_step prec True dfmin epspri g2_i gstep_i x_i =
     (case sqrt_quotient dfmin (\<bar>g2_i\<bar> + epspri) of
        NaN \<Rightarrow> None
      | Infinite \<Rightarrow>
          Some (max (max (8 * Eps prec * Eps prec) (8 * \<bar>Eps2 prec * x_i\<bar>))
                  (min (10 * \<bar>gstep_i\<bar>) 0.5))
      | Finite optstp \<Rightarrow>
          Some (max (max (8 * Eps prec * Eps prec) (8 * \<bar>Eps2 prec * x_i\<bar>))
                  (min (10 * \<bar>gstep_i\<bar>) (min 0.5 (max optstp \<bar>0.1 * gstep_i\<bar>))))) \<and>
   Numerical2P_cycle_step prec False dfmin epspri g2_i gstep_i x_i =
     (case sqrt_quotient dfmin (\<bar>g2_i\<bar> + epspri) of
        NaN \<Rightarrow> None
      | Infinite \<Rightarrow>
          Some (max (max (8 * Eps prec * Eps prec) (8 * \<bar>Eps2 prec * x_i\<bar>)) (10 * \<bar>gstep_i\<bar>))
      | Finite optstp \<Rightarrow>
          Some (max (max (8 * Eps prec * Eps prec) (8 * \<bar>Eps2 prec * x_i\<bar>))
                  (min (10 * \<bar>gstep_i\<bar>) (max optstp \<bar>0.1 * gstep_i\<bar>)))) \<and>
   (0 < \<bar>g2_i\<bar> + epspri \<and> 0 \<le> dfmin \<longrightarrow>
      sqrt_quotient dfmin (\<bar>g2_i\<bar> + epspri) = Finite (sqrt (dfmin / (\<bar>g2_i\<bar> + epspri))))"
proof -
  have a: "(if (1 / 2 :: real) > m then m else 1 / 2) = min m (1 / 2)" for m
    by (simp add: min_def)
  have n: "Numerical2P_cycle_step prec h dfmin epspri g2_i gstep_i x_i =
     (case sqrt_quotient dfmin (\<bar>g2_i\<bar> + epspri) of
        NaN \<Rightarrow> None
      | Infinite \<Rightarrow>
          Some (max (max (8 * Eps prec * Eps prec) (8 * \<bar>Eps2 prec * x_i\<bar>))
                  (if h then min (10 * \<bar>gstep_i\<bar>) 0.5 else 10 * \<bar>gstep_i\<bar>))
      | Finite optstp \<Rightarrow>
          Some (max (max (8 * Eps prec * Eps prec) (8 * \<bar>Eps2 prec * x_i\<bar>))
                  (min (10 * \<bar>gstep_i\<bar>)
                     (if h then min 0.5 (max optstp \<bar>0.1 * gstep_i\<bar>)
                      else max optstp \<bar>0.1 * gstep_i\<bar>))))" for h
    unfolding Numerical2P_cycle_step_def Let_def clamp_above clamp_below
    by (cases "sqrt_quotient dfmin (\<bar>g2_i\<bar> + epspri)") (simp_all add: a)
  have f: "0 < \<bar>g2_i\<bar> + epspri \<and> 0 \<le> dfmin \<longrightarrow>
      sqrt_quotient dfmin (\<bar>g2_i\<bar> + epspri) = Finite (sqrt (dfmin / (\<bar>g2_i\<bar> + epspri)))"
    using sqrt_quotient_Finite [of "\<bar>g2_i\<bar> + epspri" dfmin] by blast
  show ?thesis
    using cycle_step_cases [of dfmin epspri g2_i gstep_i x_i] n [of True] n [of False] f
    unfolding if_True if_False by (intro conjI)
qed

theorem step_clamp_order_witness:
  "0 < \<bar>0\<bar> + eps2 \<and> 0 \<le> 16 * eps2 \<and>
   sqrt_quotient (16 * eps2) (\<bar>0\<bar> + eps2) = Finite 4 \<and>
   cycle_step (16 * eps2) eps2 0 1 0 = Some 4 \<and>
   Numerical2P_cycle_step double_precision True (16 * eps2) eps2 0 1 0 = Some (1 / 2) \<and>
   Numerical2P_cycle_step double_precision False (16 * eps2) eps2 0 1 0 = Some 4"
proof -
  note t = step_clamp_order [where dfmin = "16 * eps2" and epspri = eps2 and g2_i = 0
      and gstep_i = 1 and x_i = 0 and prec = double_precision]
  have q: "sqrt_quotient (16 * eps2) (\<bar>0\<bar> + eps2) = Finite 4"
    using t [THEN conjunct2, THEN conjunct2, THEN conjunct2] eps2_pos by (simp add: sqrt_16)
  have v: "max (8 * eps * eps) 0 < 1 / 2" "max vrysml 0 < 1 / 2"
    using vrysml_small vrysml_pos by (simp_all add: vrysml_def)
  show ?thesis
    using t q v eps2_pos by (simp add: double_precision_def)
qed

subsection \<open>The update of a cycle\<close>

lemma cycle_update_eq:
  "cycle_update f i xtf step xd =
     ((fst xd)[i := xtf],
      (snd xd)\<lparr>fGstep := (fGstep (snd xd))[i := step],
               fGrd := (fGrd (snd xd))[i := 0.5 * (DoEval f ((fst xd)[i := xtf + step])
                         - DoEval f ((fst xd)[i := xtf - step])) / step],
               fG2 := (fG2 (snd xd))[i := (DoEval f ((fst xd)[i := xtf + step])
                         + DoEval f ((fst xd)[i := xtf - step]) - 2 * fVal (snd xd)) / step / step]\<rparr>)"
  by (simp add: cycle_update_def Let_def)




subsection \<open>A worked call\<close>

lemma flat_start_eq:
  "flat_start = \<lparr>fFunction = Some scalar_square, fStepTolerance = 0.5, fGradTolerance = 0.1,
      fNCycles = 2, fVal = 0, fN = 1, Up = 2, fGrd = [0], fG2 = [0], fGstep = [1]\<rparr>"
  by (simp add: flat_start_def SetInitialValues_def NumericalDerivatorMinuit2_ctor_def scalar_square_def)

lemma example_loop:
  "cycle_loop scalar_square (1 / 2) (1 / 10) (16 * eps2) 0 0 eps2 (Suc n) 0 ([0], flat_start)
     = Some ([0], flat_start\<lparr>fGstep := [4], fGrd := [0], fG2 := [2]\<rparr>)"
  using eps2_pos
  by (simp add: Let_def example_step flat_start_eq cycle_update_eq quotient_less_def scalar_square_def)

lemma Differentiate_flat_start:
  "Differentiate flat_start (\<lambda>k. 0) = Inr (flat_start\<lparr>fGstep := [4], fGrd := [0], fG2 := [2]\<rparr>)"
proof -
  have p: "param_body scalar_square (1 / 2) (1 / 10) (16 * eps2) (Suc (Suc 0)) 0 ([0], flat_start)
     = Some ([0], flat_start\<lparr>fGstep := [4], fGrd := [0], fG2 := [2]\<rparr>)"
    unfolding param_body_def Let_def using example_loop [of "Suc 0"] by (simp add: flat_start_eq)
  have v: "flat_start\<lparr>fVal := 0\<rparr> = flat_start" by (simp add: flat_start_eq)
  have f: "fFunction flat_start = Some scalar_square" "fStepTolerance flat_start = 1 / 2"
    "fGradTolerance flat_start = 1 / 10" "fNCycles flat_start = Suc (Suc 0)" "fN flat_start = Suc 0"
    "Up flat_start = 2" "fVal flat_start = 0"
    by (simp_all add: flat_start_eq)
  have nd: "NDim scalar_square = Suc 0" "DoEval scalar_square [0] = 0"
    by (simp_all add: scalar_square_def)
  show ?thesis
    unfolding Differentiate_def Let_def f option.case
    by (simp add: nd v p f)
qed



text \<open>
  C1, as stated, fails for \<^verbatim>\<open>Differentiate\<close>: at \<open>fVal = 0\<close>, \<open>Up = 2\<close>,
  \<open>(grad, g2, gstep) = (0, 0, 1)\<close> and \<open>x_i = 0\<close> the step of the cycle is \<open>4\<close>, where the
  candidate clamped to \<open>0.5\<close> before the other two clamps would give \<open>0.5\<close>.
\<close>

theorem Differentiate_step_exceeds_half:
  "cycle_step (8 * eps2 * (\<bar>0\<bar> + 2)) (eps2 + \<bar>0 * eps2\<bar>) 0 1 0 = Some 4 \<and>
   max (max vrysml (8 * \<bar>eps2 * 0\<bar>))
     (min (10 * \<bar>1\<bar>)
        (min 0.5 (max (sqrt (8 * eps2 * (\<bar>0\<bar> + 2) / (\<bar>0\<bar> + (eps2 + \<bar>0 * eps2\<bar>)))) \<bar>0.1 * 1\<bar>))) = 0.5"
proof -
  have a: "cycle_step (8 * eps2 * (\<bar>0\<bar> + 2)) (eps2 + \<bar>0 * eps2\<bar>) 0 1 0 = Some 4"
    using example_step by simp
  have q: "sqrt (8 * eps2 * (\<bar>0\<bar> + 2) / (\<bar>0\<bar> + (eps2 + \<bar>0 * eps2\<bar>))) = 4"
    using eps2_pos by (simp add: sqrt_16)
  have b: "max (max vrysml (8 * \<bar>eps2 * 0\<bar>))
     (min (10 * \<bar>1\<bar>)
        (min 0.5 (max (sqrt (8 * eps2 * (\<bar>0\<bar> + 2) / (\<bar>0\<bar> + (eps2 + \<bar>0 * eps2\<bar>)))) \<bar>0.1 * 1\<bar>))) = 0.5"
    unfolding q using vrysml_small vrysml_pos by simp
  show ?thesis using a b by (rule conjI)
qed

subsection \<open>The cycle loop\<close>












text \<open>
  C6. With \<open>step\<close> the step of the cycle and \<open>xd'\<close> the state after the update of the
  cycle, the loop of parameter \<open>i\<close> ends at once with \<open>xd'\<close> exactly when
  \<open>|grad_prev - grad_i| / (|grad_i| + dfmin / step) < grad_tolerance\<close>, the absolute value
  in the denominator being that of \<open>grad_i\<close> alone; otherwise it goes on to the next cycle
  from \<open>xd'\<close>. The state \<open>xd'\<close> holds the step, the gradient and the second derivative the
  cycle computed. (The denominator is taken non-zero: over zero the C++ comparison is
  false.)
\<close>

theorem gradient_convergence_test:
  assumes step: "cycle_step dfmin epspri (fG2 (snd xd) ! i) (fGstep (snd xd) ! i) (fst xd ! i) = Some step"
    and nostep: "\<not> \<bar>(step - step_old) / step\<bar> < step_tolerance"
    and upd: "xd' = cycle_update f i xtf step xd"
    and den: "\<bar>fGrd (snd xd') ! i\<bar> + dfmin / step \<noteq> 0"
    and idx: "i < length (fGrd (snd xd))" "i < length (fG2 (snd xd))" "i < length (fGstep (snd xd))"
  shows "(\<bar>fGrd (snd xd) ! i - fGrd (snd xd') ! i\<bar> / (\<bar>fGrd (snd xd') ! i\<bar> + dfmin / step)
            < grad_tolerance \<longrightarrow>
          cycle_loop f step_tolerance grad_tolerance dfmin i xtf epspri (Suc n) step_old xd = Some xd') \<and>
         (\<not> \<bar>fGrd (snd xd) ! i - fGrd (snd xd') ! i\<bar> / (\<bar>fGrd (snd xd') ! i\<bar> + dfmin / step)
            < grad_tolerance \<longrightarrow>
          cycle_loop f step_tolerance grad_tolerance dfmin i xtf epspri (Suc n) step_old xd
            = cycle_loop f step_tolerance grad_tolerance dfmin i xtf epspri n step xd') \<and>
         fGstep (snd xd') ! i = step \<and>
         fGrd (snd xd') ! i
           = 0.5 * (DoEval f ((fst xd)[i := xtf + step]) - DoEval f ((fst xd)[i := xtf - step])) / step \<and>
         fG2 (snd xd') ! i
           = (DoEval f ((fst xd)[i := xtf + step]) + DoEval f ((fst xd)[i := xtf - step])
              - 2 * fVal (snd xd)) / step / step"
proof -
  have loop: "cycle_loop f step_tolerance grad_tolerance dfmin i xtf epspri (Suc n) step_old xd
      = (if quotient_less \<bar>fGrd (snd xd) ! i - fGrd (snd xd') ! i\<bar>
              (\<bar>fGrd (snd xd') ! i\<bar> + dfmin / step) grad_tolerance
         then Some xd' else cycle_loop f step_tolerance grad_tolerance dfmin i xtf epspri n step xd')"
    using nostep by (simp add: Let_def step upd [symmetric])
  have vals: "fGstep (snd xd') ! i = step"
    "fGrd (snd xd') ! i
       = 0.5 * (DoEval f ((fst xd)[i := xtf + step]) - DoEval f ((fst xd)[i := xtf - step])) / step"
    "fG2 (snd xd') ! i
       = (DoEval f ((fst xd)[i := xtf + step]) + DoEval f ((fst xd)[i := xtf - step])
          - 2 * fVal (snd xd)) / step / step"
    using idx by (simp_all add: upd cycle_update_eq)
  show ?thesis
    unfolding loop using den vals by (simp add: quotient_less_def)
qed

theorem gradient_convergence_test_witness:
  "cycle_loop scalar_square 0.5 0.1 (16 * eps2) 0 0 eps2 (Suc 1) 0 ([0], flat_start)
     = Some ([0], flat_start\<lparr>fGstep := [4], fGrd := [0], fG2 := [2]\<rparr>)"
proof -
  have st: "cycle_step (16 * eps2) eps2 (fG2 (snd ([0::real], flat_start)) ! 0)
              (fGstep (snd ([0::real], flat_start)) ! 0) (fst ([0::real], flat_start) ! 0) = Some 4"
    by (simp add: flat_start_eq example_step)
  have up: "([0], flat_start\<lparr>fGstep := [4], fGrd := [0], fG2 := [2]\<rparr>)
              = cycle_update scalar_square 0 0 4 ([0], flat_start)"
    by (simp add: cycle_update_eq flat_start_eq scalar_square_def)
  have den: "\<bar>fGrd (snd ([0::real], flat_start\<lparr>fGstep := [4], fGrd := [0], fG2 := [2]\<rparr>)) ! 0\<bar>
               + 16 * eps2 / 4 \<noteq> 0"
    using eps2_pos by simp
  show ?thesis
    using gradient_convergence_test [where step_old = 0 and step_tolerance = "0.5"
        and grad_tolerance = "0.1" and n = 1, OF st _ up den] eps2_pos
    by (simp add: flat_start_eq)
qed

subsection \<open>The loop over the parameters\<close>












text \<open>
  C8. \<^verbatim>\<open>Differentiate\<close> is a function of the point, of the state \<open>(grad, g2, gstep)\<close>, of
  the tolerances, of the number of cycles, of the error level and of the function: two
  derivators that agree on these, called at arguments that agree on the \<open>fN\<close> coordinates
  \<^verbatim>\<open>Differentiate\<close> reads, return the same state, cached \<open>fVal\<close> included, whatever value
  each had cached before and whatever lies behind the coordinates.
\<close>

theorem Differentiate_deterministic:
  assumes wf: "derivator_wf d1" "derivator_wf d2"
    and f: "fFunction d1 = fFunction d2"
    and tol: "fStepTolerance d1 = fStepTolerance d2" "fGradTolerance d1 = fGradTolerance d2"
    and cyc: "fNCycles d1 = fNCycles d2"
    and up: "Up d1 = Up d2"
    and st: "fGrd d1 = fGrd d2" "fG2 d1 = fG2 d2" "fGstep d1 = fGstep d2"
    and x: "\<forall>k<fN d1. cx1 k = cx2 k"
  shows "Differentiate d1 cx1 = Differentiate d2 cx2"
proof (cases "fFunction d1")
  case None
  then show ?thesis using f by (simp add: Differentiate_def)
next
  case (Some g)
  have g: "fFunction d1 = Some g" "fFunction d2 = Some g"
    using Some f by simp_all
  have n: "fN d1 = NDim g" "fN d2 = NDim g"
    using wf g by (simp_all add: derivator_wf_def)
  have xs: "map cx1 [0..<NDim g] = map cx2 [0..<NDim g]"
    using x n by simp
  have d: "d1\<lparr>fVal := v\<rparr> = d2\<lparr>fVal := v\<rparr>" for v
    using f tol cyc up st n by (intro NumericalDerivatorMinuit2.equality) simp_all
  show ?thesis
    unfolding Differentiate_def Let_def g option.case n xs tol cyc up d ..
qed

theorem Differentiate_deterministic_witness:
  "Differentiate flat_start (\<lambda>k. 0)
     = Differentiate (flat_start\<lparr>fVal := 7\<rparr>) (\<lambda>k. if k = 0 then 0 else 5) \<and>
   Differentiate flat_start (\<lambda>k. 0) = Inr (flat_start\<lparr>fGstep := [4], fGrd := [0], fG2 := [2]\<rparr>)"
proof -
  have e: "Differentiate flat_start (\<lambda>k. 0)
     = Differentiate (flat_start\<lparr>fVal := 7\<rparr>) (\<lambda>k. if k = 0 then 0 else 5)"
    by (rule Differentiate_deterministic)
      (simp_all add: derivator_wf_def flat_start_eq scalar_square_def)
  show ?thesis
    using e Differentiate_flat_start by (rule conjI)
qed



subsection \<open>\<^verbatim>\<open>SetInitialGradient\<close>\<close>

lemma initial_gradient_body_length:
  "length (Grad (initial_gradient_body T P U v j fg)) = length (Grad fg) \<and>
   length (G2 (initial_gradient_body T P U v j fg)) = length (G2 fg) \<and>
   length (Gstep (initial_gradient_body T P U v j fg)) = length (Gstep fg)"
  by (simp add: initial_gradient_body_def split: prod.split)

lemma initial_gradient_body_other:
  "i \<noteq> j \<Longrightarrow>
   Grad (initial_gradient_body T P U v j fg) ! i = Grad fg ! i \<and>
   G2 (initial_gradient_body T P U v j fg) ! i = G2 fg ! i \<and>
   Gstep (initial_gradient_body T P U v j fg) ! i = Gstep fg ! i"
  by (simp add: initial_gradient_body_def split: prod.split)

lemma initial_gradient_body_at:
  assumes "i < length (Grad fg)" "i < length (G2 fg)" "i < length (Gstep fg)"
  shows "(Grad (initial_gradient_body T P U v i fg) ! i,
          G2 (initial_gradient_body T P U v i fg) ! i,
          Gstep (initial_gradient_body T P U v i fg) ! i) = initial_gradient_values T P U v i"
  using assms by (simp add: initial_gradient_body_def split: prod.split)

lemma initial_gradient_fold:
  assumes "n \<le> length (Grad fg)" "n \<le> length (G2 fg)" "n \<le> length (Gstep fg)"
  shows "length (Grad (fold (initial_gradient_body T P U v) [0..<n] fg)) = length (Grad fg) \<and>
         length (G2 (fold (initial_gradient_body T P U v) [0..<n] fg)) = length (G2 fg) \<and>
         length (Gstep (fold (initial_gradient_body T P U v) [0..<n] fg)) = length (Gstep fg) \<and>
         (\<forall>i<n. (Grad (fold (initial_gradient_body T P U v) [0..<n] fg) ! i,
                 G2 (fold (initial_gradient_body T P U v) [0..<n] fg) ! i,
                 Gstep (fold (initial_gradient_body T P U v) [0..<n] fg) ! i)
                = initial_gradient_values T P U v i)"
  using assms
proof (induction n)
  case 0
  show ?case by simp
next
  case (Suc n)
  define r where "r = fold (initial_gradient_body T P U v) [0..<n] fg"
  have ih: "length (Grad r) = length (Grad fg)" "length (G2 r) = length (G2 fg)"
    "length (Gstep r) = length (Gstep fg)"
    "\<forall>i<n. (Grad r ! i, G2 r ! i, Gstep r ! i) = initial_gradient_values T P U v i"
    using Suc by (simp_all add: r_def)
  have st: "fold (initial_gradient_body T P U v) [0..<Suc n] fg = initial_gradient_body T P U v n r"
    by (simp add: r_def)
  have len: "n < length (Grad r)" "n < length (G2 r)" "n < length (Gstep r)"
    using ih(1-3) Suc.prems by simp_all
  have at: "(Grad (initial_gradient_body T P U v n r) ! i,
             G2 (initial_gradient_body T P U v n r) ! i,
             Gstep (initial_gradient_body T P U v n r) ! i) = initial_gradient_values T P U v i"
    if "i < Suc n" for i
  proof (cases "i = n")
    case True
    then show ?thesis using initial_gradient_body_at [OF len] by simp
  next
    case False
    then have "i < n" using that by simp
    then show ?thesis
      using ih(4) initial_gradient_body_other [OF False, of T P U v r] by simp
  qed
  show ?case
    unfolding st using at ih(1-3) initial_gradient_body_length [of T P U v n r] by simp
qed

text \<open>
  C3 (amended). After \<^verbatim>\<open>SetInitialGradient\<close>, for every parameter \<open>i < fN\<close>, with
  \<open>gsmin = 8 * eps2 * (|x_i| + eps2)\<close> and \<open>dirin = max((|vplu| + |vmin|) / 2, gsmin)\<close>:
  \<open>dirin\<close> is positive, \<open>g2_i = 2 * Up / dirin\<^sup>2\<close>, \<open>grad_i = g2_i * dirin\<close>, and \<open>gstep_i\<close> is
  \<open>max(gsmin, 0.1 * dirin)\<close> for a parameter without limits and the smaller of \<open>0.5\<close> and
  \<open>max(gsmin, 0.1 * dirin)\<close> for a parameter with limits; so \<open>g2_i \<ge> 0\<close> whenever \<open>Up \<ge> 0\<close>,
  and \<open>gstep_i \<le> 0.5\<close> for every parameter that has limits.
\<close>

theorem SetInitialGradient_values:
  assumes i: "i < fN d"
    and len: "fN d \<le> length (Grad fg)" "fN d \<le> length (G2 fg)" "fN d \<le> length (Gstep fg)"
    and prec: "0 < Eps2 P"
  shows "let fg' = SetInitialGradient T P U v d fg;
             p = Parameter T (ExtOfInt T i);
             gsmin = 8 * Eps2 P * (\<bar>v ! i\<bar> + Eps2 P);
             dirin = max ((\<bar>initial_vplu T v i\<bar> + \<bar>initial_vmin T v i\<bar>) / 2) gsmin
         in 0 < dirin \<and>
            G2 fg' ! i = 2 * U / dirin\<^sup>2 \<and>
            Grad fg' ! i = G2 fg' ! i * dirin \<and>
            Gstep fg' ! i = (if HasLimits p then min 0.5 (max gsmin (0.1 * dirin))
                             else max gsmin (0.1 * dirin)) \<and>
            (0 \<le> U \<longrightarrow> 0 \<le> G2 fg' ! i) \<and>
            (HasLimits p \<longrightarrow> Gstep fg' ! i \<le> 0.5)"
proof -
  define gsmin where "gsmin = 8 * Eps2 P * (\<bar>v ! i\<bar> + Eps2 P)"
  define dirin where "dirin = max ((\<bar>initial_vplu T v i\<bar> + \<bar>initial_vmin T v i\<bar>) / 2) gsmin"
  define fg' where "fg' = SetInitialGradient T P U v d fg"
  have gs: "0 < gsmin"
    using prec by (simp add: gsmin_def add_nonneg_pos)
  have dp: "0 < dirin"
    using gs by (simp add: dirin_def less_max_iff_disj)
  have vals: "(Grad fg' ! i, G2 fg' ! i, Gstep fg' ! i) = initial_gradient_values T P U v i"
    using initial_gradient_fold [OF len, of T P U v] i
    by (simp add: fg'_def SetInitialGradient_def)
  have ev: "initial_gradient_values T P U v i =
      (2 * U / (dirin * dirin) * dirin, 2 * U / (dirin * dirin),
       (if HasLimits (Parameter T (ExtOfInt T i)) then min 0.5 (max gsmin (0.1 * dirin))
        else max gsmin (0.1 * dirin)))"
    by (simp add: initial_gradient_values_def Let_def dirin_def gsmin_def min_def)
  have g2: "G2 fg' ! i = 2 * U / dirin\<^sup>2" and grd: "Grad fg' ! i = G2 fg' ! i * dirin"
    and gst: "Gstep fg' ! i = (if HasLimits (Parameter T (ExtOfInt T i))
        then min 0.5 (max gsmin (0.1 * dirin)) else max gsmin (0.1 * dirin))"
    using vals ev by (simp_all add: power2_eq_square)
  have nn: "0 \<le> U \<longrightarrow> 0 \<le> G2 fg' ! i"
    using g2 by simp
  have lim: "HasLimits (Parameter T (ExtOfInt T i)) \<longrightarrow> Gstep fg' ! i \<le> 0.5"
    using gst by (auto simp add: min_def)
  show ?thesis
    unfolding Let_def gsmin_def [symmetric] dirin_def [symmetric] fg'_def [symmetric]
    using dp g2 grd gst nn lim by (intro conjI)
qed

theorem SetInitialGradient_values_witness:
  "0 < fN flat_start \<and> 0 < Eps2 double_precision \<and>
   (let fg' = SetInitialGradient (spec_Trafo [unlimited]) double_precision 1 [1] flat_start
                (default_gradient 1)
    in G2 fg' ! 0 = 8 \<and> Grad fg' ! 0 = 4 \<and> Gstep fg' ! 0 = 1 / 20)"
proof -
  have h: "0 < fN flat_start" "fN flat_start \<le> length (Grad (default_gradient 1))"
    "fN flat_start \<le> length (G2 (default_gradient 1))"
    "fN flat_start \<le> length (Gstep (default_gradient 1))" "0 < Eps2 double_precision"
    by (simp_all add: flat_start_eq default_gradient_def double_precision_def eps2_pos)
  have vp: "initial_vplu (spec_Trafo [unlimited]) [1] 0 = 1 / 2"
    by (simp add: initial_vplu_def spec_Trafo_def unlimited_def HasLimits_def
        spec_int2ext_def spec_ext2int_def)
  have vm: "initial_vmin (spec_Trafo [unlimited]) [1] 0 = - 1 / 2"
    by (simp add: initial_vmin_def spec_Trafo_def unlimited_def HasLimits_def
        spec_int2ext_def spec_ext2int_def)
  have gs: "8 * eps2 * (1 + eps2) < 1 / 20"
    by (simp add: eps2_eq)
  have lim: "\<not> HasLimits (Parameter (spec_Trafo [unlimited]) 0)"
    by (simp add: spec_Trafo_def unlimited_def HasLimits_def)
  have ex: "ExtOfInt (spec_Trafo [unlimited]) 0 = 0"
    by (simp add: spec_Trafo_def)
  show ?thesis
    using SetInitialGradient_values [OF h, of "spec_Trafo [unlimited]" 1 "[1]"] h(1,5) gs lim
    by (auto simp add: Let_def vp vm ex double_precision_def max_def power2_eq_square)
qed

text \<open>
  C3, as stated, fails for a parameter with limits whose \<open>max(gsmin, 0.1 * dirin)\<close> exceeds
  \<open>0.5\<close>: for a lower limit \<open>0\<close>, an error \<open>100\<close> and the internal value \<open>0\<close> the step stored
  is \<open>0.5\<close>, below \<open>max(gsmin, 0.1 * dirin)\<close>.
\<close>

theorem limited_gstep_is_clamped:
  "Gstep (SetInitialGradient (spec_Trafo [lower_limited]) double_precision 1 [0] flat_start
            (default_gradient 1)) ! 0 = 1 / 2 \<and>
   1 / 2 < max (8 * Eps2 double_precision * (\<bar>[0] ! 0\<bar> + Eps2 double_precision))
             (0.1 * max ((\<bar>initial_vplu (spec_Trafo [lower_limited]) [0] 0\<bar>
                          + \<bar>initial_vmin (spec_Trafo [lower_limited]) [0] 0\<bar>) / 2)
                      (8 * Eps2 double_precision * (\<bar>[0] ! 0\<bar> + Eps2 double_precision)))"
proof -
  have vp: "initial_vplu (spec_Trafo [lower_limited]) [0] 0 = sqrt 10200"
    by (simp add: initial_vplu_def spec_Trafo_def lower_limited_def HasLimits_def
        spec_int2ext_def spec_ext2int_def)
  have vm: "initial_vmin (spec_Trafo [lower_limited]) [0] 0 = 0"
    by (simp add: initial_vmin_def spec_Trafo_def lower_limited_def HasLimits_def
        spec_int2ext_def spec_ext2int_def)
  have big: "100 \<le> sqrt 10200"
    by (rule real_le_rsqrt) simp
  have lim: "HasLimits (Parameter (spec_Trafo [lower_limited]) (ExtOfInt (spec_Trafo [lower_limited]) 0))"
    by (simp add: spec_Trafo_def lower_limited_def HasLimits_def)
  have v: "snd (snd (initial_gradient_values (spec_Trafo [lower_limited]) double_precision 1 [0] 0))
             = 1 / 2"
    using big lim eps2_pos
    by (simp add: initial_gradient_values_def Let_def vp vm double_precision_def eps2_eq max_def)
  have a: "Gstep (SetInitialGradient (spec_Trafo [lower_limited]) double_precision 1 [0] flat_start
            (default_gradient 1)) ! 0 = 1 / 2"
    using v
    by (simp add: SetInitialGradient_def flat_start_eq initial_gradient_body_def
        default_gradient_def case_prod_beta)
  have b: "1 / 2 < max (8 * Eps2 double_precision * (\<bar>[0] ! 0\<bar> + Eps2 double_precision))
             (0.1 * max ((\<bar>initial_vplu (spec_Trafo [lower_limited]) [0] 0\<bar>
                          + \<bar>initial_vmin (spec_Trafo [lower_limited]) [0] 0\<bar>) / 2)
                      (8 * Eps2 double_precision * (\<bar>[0] ! 0\<bar> + Eps2 double_precision)))"
    using big by (simp add: vp vm less_max_iff_disj)
  show ?thesis using a b by (rule conjI)
qed

section \<open>Properties of the task manager\<close>

subsection \<open>The handshake of \<^verbatim>\<open>retrieve\<close>\<close>

text \<open>
  C2. On \<^verbatim>\<open>M2Q::retrieve\<close> the queue process goes on with its loop and writes one reply to
  the master: \<^verbatim>\<open>retrieve_accepted\<close> if and only if its queue is empty and the number of
  recorded results equals \<open>N_tasks\<close>. The accepted reply carries \<open>N_tasks\<close> and all stored
  results, after which the result map is empty and \<open>N_tasks\<close> is zero; the other reply is
  \<^verbatim>\<open>retrieve_rejected\<close>, and the state of the queue process is then unchanged.
\<close>

theorem retrieve_handshake:
  "\<exists>replies q'.
     process_queue_pipe_message M2Q_retrieve q = Inr (True, [], replies, q') \<and>
     (replies = [Q2M_retrieve_accepted (N_tasks q) (results q)] \<or> replies = [Q2M_retrieve_rejected]) \<and>
     (replies = [Q2M_retrieve_accepted (N_tasks q) (results q)]
        \<longleftrightarrow> queue q = [] \<and> length (results q) = N_tasks q) \<and>
     (replies = [Q2M_retrieve_accepted (N_tasks q) (results q)]
        \<longrightarrow> q' = q\<lparr>results := [], N_tasks := 0\<rparr>) \<and>
     (replies = [Q2M_retrieve_rejected] \<longrightarrow> q' = q)"
  by (simp add: process_queue_pipe_message_def)

theorem retrieve_handshake_witness:
  "process_queue_pipe_message M2Q_retrieve queue_example
     = Inr (True, [], [Q2M_retrieve_accepted 1 [((0, 0), 3)]], queue_example\<lparr>results := [], N_tasks := 0\<rparr>) \<and>
   process_queue_pipe_message M2Q_retrieve (queue_example\<lparr>queue := [(0, 1)]\<rparr>)
     = Inr (True, [], [Q2M_retrieve_rejected], queue_example\<lparr>queue := [(0, 1)]\<rparr>)"
proof -
  have a: "queue queue_example = [] \<and> length (results queue_example) = N_tasks queue_example"
    "N_tasks queue_example = 1" "results queue_example = [((0, 0), 3)]"
    by (simp_all add: queue_example_def forked_ipqm_def)
  have b: "\<not> (queue (queue_example\<lparr>queue := [(0, 1)]\<rparr>) = [] \<and>
      length (results (queue_example\<lparr>queue := [(0, 1)]\<rparr>)) = N_tasks (queue_example\<lparr>queue := [(0, 1)]\<rparr>))"
    by simp
  show ?thesis
    using retrieve_handshake [of queue_example] retrieve_handshake [of "queue_example\<lparr>queue := [(0, 1)]\<rparr>"] a b
    by auto
qed

subsection \<open>Registration of jobs\<close>

lemma IPQM_add_job_object_registers:
  "IPQM_add_job_object job_object st =
     (job_counter st,
      st\<lparr>job_counter := job_counter st + 1,
         job_objects := map_assign (job_objects st) (job_counter st) (Some job_object)\<rparr>)"
  by (simp add: IPQM_add_job_object_def Let_def)

lemma TaskManager_add_job_object_throws:
  "TaskManager_add_job_object job_object st = Inl logic_error \<longleftrightarrow>
     (\<exists>tm. TaskManager_instance st = Some tm \<and> TaskManager_is_activated tm)"
  by (cases "TaskManager_instance st")
    (simp_all add: TaskManager_add_job_object_def TaskManager_is_instantiated_def Let_def)

lemma TaskManager_add_job_object_registers:
  assumes "\<not> (\<exists>tm. TaskManager_instance st = Some tm \<and> TaskManager_is_activated tm)"
  shows "TaskManager_add_job_object job_object st =
     Inr (TaskManager_job_counter st,
          st\<lparr>TaskManager_job_counter := TaskManager_job_counter st + 1,
             TaskManager_job_objects :=
               map_assign (TaskManager_job_objects st) (TaskManager_job_counter st) (Some job_object)\<rparr>)"
  using assms
  by (cases "TaskManager_instance st")
    (simp_all add: TaskManager_add_job_object_def TaskManager_is_instantiated_def Let_def)

text \<open>
  C5. \<^verbatim>\<open>TaskManager::add_job_object\<close> throws \<^verbatim>\<open>std::logic_error\<close> for an instance that has been
  activated. \<^verbatim>\<open>InterProcessQueueAndMessenger::add_job_object\<close> has no such check: in the same
  situation, an activated instance that holds no job yet, it returns the id \<open>0\<close> and the job
  is found under it.
\<close>

theorem registration_after_activation:
  "instance_ptr activated_statics = Some (activate (forked_ipqm 1 True False)) \<and>
   is_activated (activate (forked_ipqm 1 True False)) \<and>
   IPQM_add_job_object test_job activated_statics
     = (0, activated_statics\<lparr>job_counter := 1, job_objects := [(0, Some test_job)]\<rparr>) \<and>
   fst (IPQM_get_job_object 0 (snd (IPQM_add_job_object test_job activated_statics)))
     = Some test_job \<and>
   TaskManager_add_job_object test_job activated_TaskManager_statics = Inl logic_error"
  by (simp add: activated_statics_def activated_TaskManager_statics_def IPQM_add_job_object_def
      IPQM_get_job_object_def map_subscript_def TaskManager_add_job_object_def
      TaskManager_is_instantiated_def TaskManager_is_activated_def Let_def is_activated_def
      activate_def)

subsection \<open>The result map\<close>

lemma map_assign_set: "set (map_assign m k v) \<subseteq> insert (k, v) (set m)"
  by (induction m k v rule: map_assign.induct) auto

lemma map_assign_keys: "fst ` set (map_assign m k v) = insert k (fst ` set m)"
  by (induction m k v rule: map_assign.induct) auto

lemma map_assign_map_of: "map_of (map_assign m k v) = (map_of m)(k \<mapsto> v)"
  by (induction m k v rule: map_assign.induct) (auto simp add: fun_upd_twist)

lemma map_assign_ordered: "map_ordered m \<Longrightarrow> map_ordered (map_assign m k v)"
  unfolding map_ordered_def
proof (induction m k v rule: map_assign.induct)
  case (1 k v)
  show ?case by simp
next
  case (2 k' v' m k v)
  then show ?case
    using map_assign_keys [of m k v] by (auto simp add: rev_image_eqI)
qed

lemma map_assign_all:
  "list_all P m \<Longrightarrow> P (k, v) \<Longrightarrow> list_all P (map_assign m k v)"
  using map_assign_set [of m k v] by (auto simp add: list_all_iff)

subsection \<open>A worker keeps to the job\<close>

lemma q2w_tasks_append: "q2w_tasks (a @ b) = q2w_tasks a @ q2w_tasks b"
  by (induction a rule: q2w_tasks.induct) simp_all

lemma w2q_results_append: "w2q_results (a @ b) = w2q_results a @ w2q_results b"
  by (induction a rule: w2q_results.induct) simp_all

lemma m2q_tasks_append: "m2q_tasks (a @ b) = m2q_tasks a @ m2q_tasks b"
  by (induction a rule: m2q_tasks.induct) simp_all

lemma q2w_tasks_tail: "list_all P (q2w_tasks (m # ms)) \<Longrightarrow> list_all P (q2w_tasks ms)"
  by (cases m) simp_all

lemma w2q_results_tail: "list_all P (w2q_results (m # ms)) \<Longrightarrow> list_all P (w2q_results ms)"
  by (cases m) simp_all

lemma evaluate_task_valid:
  assumes "valid_task jid job (j, t)"
    and "xsq_x jb = xsq_x job" "xsq_b jb = xsq_b job" "length (xsq_result jb) = length (xsq_x job)"
  shows "\<exists>jb'. evaluate_task t jb = Some jb' \<and> xsq_x jb' = xsq_x job \<and> xsq_b jb' = xsq_b job \<and>
           length (xsq_result jb') = length (xsq_x job) \<and>
           valid_result jid job ((j, t), get_task_result t jb')"
  using assms
  by (simp add: evaluate_task_def get_task_result_def valid_task_def valid_result_def)

lemma work_mode_message_ok:
  assumes "worker_ok jid job (w\<lparr>pipe_from_queue := msg # rest\<rparr>)"
  shows "worker_ok jid job (work_mode_message msg (w\<lparr>pipe_from_queue := rest\<rparr>))"
proof (cases msg)
  case (Q2W_dequeue_accepted j t)
  have vt: "valid_task jid job (j, t)"
    using assms Q2W_dequeue_accepted by (simp add: worker_ok_def)
  then have j: "j = jid" by (simp add: valid_task_def)
  obtain jb where jb: "worker_job_objects w jid = Some jb" "xsq_x jb = xsq_x job"
    "xsq_b jb = xsq_b job" "length (xsq_result jb) = length (xsq_x job)"
    using assms by (auto simp add: worker_ok_def split: option.splits)
  obtain jb' where e: "evaluate_task t jb = Some jb'" "xsq_x jb' = xsq_x job"
    "xsq_b jb' = xsq_b job" "length (xsq_result jb') = length (xsq_x job)"
    "valid_result jid job ((j, t), get_task_result t jb')"
    using evaluate_task_valid [OF vt jb(2-4)] by blast
  show ?thesis
    using assms Q2W_dequeue_accepted j jb e
    by (simp add: work_mode_message_def worker_ok_def w2q_results_append)
qed (use assms in \<open>simp_all add: work_mode_message_def worker_ok_def\<close>)

lemma idle_mode_message_ok:
  assumes "worker_ok jid job (w\<lparr>pipe_from_queue := msg # rest\<rparr>)"
  shows "worker_ok jid job (idle_mode_message msg (w\<lparr>pipe_from_queue := rest\<rparr>))"
  using assms
  by (cases msg) (simp_all add: idle_mode_message_def worker_ok_def w2q_results_append)

lemma worker_ok_tail:
  assumes "worker_ok jid job (w\<lparr>pipe_from_queue := msg # rest\<rparr>)"
  shows "worker_ok jid job (w\<lparr>pipe_from_queue := rest, worker_pc := pc\<rparr>)"
  using assms q2w_tasks_tail [of "valid_task jid job" msg rest]
  by (simp add: worker_ok_def)

lemma worker_loop_step_ok:
  assumes "worker_ok jid job w" and "worker_loop_step w = Some w'"
  shows "worker_ok jid job w'"
proof (cases "worker_pc w")
  case Loop_top
  then show ?thesis
    using assms by (auto simp add: worker_loop_step_def worker_ok_def w2q_results_append
        split: if_splits)
next
  case Await_dequeue_reply
  then obtain msg rest where p: "pipe_from_queue w = msg # rest"
    and w': "w' = work_mode_message msg (w\<lparr>pipe_from_queue := rest\<rparr>)"
    using assms(2) by (auto simp add: worker_loop_step_def split: list.splits)
  have "w\<lparr>pipe_from_queue := msg # rest\<rparr> = w" using p by simp
  then show ?thesis
    using work_mode_message_ok [where w = w and msg = msg and rest = rest and jid = jid and job = job] assms(1) w' by simp
next
  case Await_result_received
  then obtain msg rest where p: "pipe_from_queue w = msg # rest"
    and w': "w' = w\<lparr>pipe_from_queue := rest, worker_pc := Worker_thrown runtime_error\<rparr> \<or>
             w' = w\<lparr>pipe_from_queue := rest, worker_pc := Loop_top\<rparr>"
    using assms(2) by (auto simp add: worker_loop_step_def split: list.splits if_splits)
  have "w\<lparr>pipe_from_queue := msg # rest\<rparr> = w" using p by simp
  then show ?thesis
    using worker_ok_tail [where w = w and msg = msg and rest = rest and jid = jid and job = job] assms(1) w' by auto
next
  case Await_message
  then obtain msg rest where p: "pipe_from_queue w = msg # rest"
    and w': "w' = idle_mode_message msg (w\<lparr>pipe_from_queue := rest\<rparr>)"
    using assms(2) by (auto simp add: worker_loop_step_def split: list.splits)
  have "w\<lparr>pipe_from_queue := msg # rest\<rparr> = w" using p by simp
  then show ?thesis
    using idle_mode_message_ok [where w = w and msg = msg and rest = rest and jid = jid and job = job] assms(1) w' by simp
qed (use assms(2) in \<open>simp_all add: worker_loop_step_def\<close>)

subsection \<open>The moves of the workers and of the queue on their pipes\<close>

lemma list_all_update: "list_all P xs \<Longrightarrow> P y \<Longrightarrow> list_all P (xs[k := y])"
  using set_update_subset_insert [of xs k y] by (auto simp add: list_all_iff)

lemma list_all_nth: "list_all P xs \<Longrightarrow> k < length xs \<Longrightarrow> P (xs ! k)"
  by (simp add: list_all_length)

lemma run_invariant_frame:
  assumes "run_invariant jid job s"
    and "master_pc (master s') = master_pc (master s)"
    and "m2q_pipe s' = m2q_pipe s" "q2m_pipe s' = q2m_pipe s"
    and "N_tasks (queue_process s') = N_tasks (queue_process s)"
    and "processes_ok jid job s \<Longrightarrow> processes_ok jid job s'"
  shows "run_invariant jid job s'"
  using assms
  by (cases "master_pc (master s)") (simp_all add: run_invariant_def handshake_pending_def)

lemma step_Worker:
  assumes "run_invariant jid job s"
  shows "run_invariant jid job (system_step (Worker k) s)"
proof (cases "k < length (workers s)")
  case False
  then show ?thesis using assms by (simp add: system_step_def queue_reads_worker_def)
next
  case True
  show ?thesis
  proof (cases "worker_loop_step (workers s ! k)")
    case None
    then show ?thesis using assms True by (simp add: system_step_def queue_reads_worker_def)
  next
    case (Some w)
    have st: "system_step (Worker k) s = s\<lparr>workers := (workers s)[k := w]\<rparr>"
      using True Some by (simp add: system_step_def queue_reads_worker_def)
    have ok: "processes_ok jid job (s\<lparr>workers := (workers s)[k := w]\<rparr>)" if p: "processes_ok jid job s"
    proof -
      have "worker_ok jid job (workers s ! k)"
        using p True by (simp add: processes_ok_def list_all_nth)
      then have "worker_ok jid job w"
        using Some by (rule worker_loop_step_ok)
      then show ?thesis
        using p by (simp add: processes_ok_def list_all_update)
    qed
    show ?thesis
      unfolding st by (rule run_invariant_frame [OF assms]) (simp_all add: ok)
  qed
qed

lemma from_queue_cases:
  "from_queue q = (None, q) \<and> queue q = [] \<or>
   (\<exists>jt rest. queue q = jt # rest \<and> from_queue q = (Some jt, q\<lparr>queue := rest\<rparr>))"
  by (cases "queue q") (simp_all add: from_queue_def)

lemma process_worker_pipe_message_ok:
  assumes "process_worker_pipe_message msg q = Inr (replies, q')"
    and "list_all (valid_task jid job) (queue q)"
    and "list_all (valid_result jid job) (results q)"
    and "map_ordered (results q)"
    and "list_all (valid_result jid job) (w2q_results [msg])"
  shows "list_all (valid_task jid job) (queue q') \<and>
         list_all (valid_result jid job) (results q') \<and>
         map_ordered (results q') \<and>
         list_all (valid_task jid job) (q2w_tasks replies) \<and>
         N_tasks q' = N_tasks q \<and> is_queue q' = is_queue q \<and> is_master q' = is_master q"
proof (cases msg)
  case W2Q_terminate
  then show ?thesis using assms(1) by (simp add: process_worker_pipe_message_def)
next
  case W2Q_dequeue
  then show ?thesis
    using assms(1-4) from_queue_cases [of q]
    by (auto simp add: process_worker_pipe_message_def)
next
  case (W2Q_send_result j t r)
  then show ?thesis
    using assms by (auto simp add: process_worker_pipe_message_def map_assign_all map_assign_ordered)
qed

lemma w2q_results_head:
  "list_all P (w2q_results (m # ms)) \<Longrightarrow> list_all P (w2q_results [m])"
  by (cases m) simp_all

lemma step_Queue_reads_worker:
  assumes "run_invariant jid job s"
  shows "run_invariant jid job (system_step (Queue_reads_worker k) s)"
proof (cases "queue_pc s \<noteq> Queue_loop \<or> \<not> k < length (workers s)")
  case True
  then show ?thesis using assms by (auto simp add: system_step_def queue_reads_worker_def)
next
  case False
  then have k: "k < length (workers s)" and ql: "queue_pc s = Queue_loop" by simp_all
  show ?thesis
  proof (cases "pipe_to_queue (workers s ! k)")
    case Nil
    then show ?thesis using assms False by (simp add: system_step_def queue_reads_worker_def)
  next
    case (Cons msg rest)
    show ?thesis
    proof (cases "process_worker_pipe_message msg (queue_process s)")
      case (Inl e)
      have st: "system_step (Queue_reads_worker k) s
          = s\<lparr>workers := (workers s)[k := (workers s ! k)\<lparr>pipe_to_queue := rest\<rparr>],
              queue_pc := Queue_thrown e\<rparr>"
        using k ql Cons Inl by (simp add: system_step_def queue_reads_worker_def)
      have ok: "processes_ok jid job (s\<lparr>workers := (workers s)[k := (workers s ! k)\<lparr>pipe_to_queue := rest\<rparr>],
              queue_pc := Queue_thrown e\<rparr>)" if p: "processes_ok jid job s"
      proof -
        have w: "worker_ok jid job (workers s ! k)"
          using p k by (simp add: processes_ok_def list_all_nth)
        have "worker_ok jid job ((workers s ! k)\<lparr>pipe_to_queue := rest\<rparr>)"
          using w Cons w2q_results_tail [of "valid_result jid job" msg rest]
          by (simp add: worker_ok_def)
        then show ?thesis
          using p by (simp add: processes_ok_def list_all_update)
      qed
      show ?thesis
        unfolding st by (rule run_invariant_frame [OF assms]) (simp_all add: ok)
    next
      case (Inr res)
      obtain replies q' where res: "res = (replies, q')" by (cases res)
      have st: "system_step (Queue_reads_worker k) s
          = s\<lparr>workers := (workers s)[k := (workers s ! k)
                 \<lparr>pipe_to_queue := rest,
                  pipe_from_queue := pipe_from_queue (workers s ! k) @ replies\<rparr>],
              queue_process := q'\<rparr>"
        using k ql Cons Inr res by (simp add: system_step_def queue_reads_worker_def)
      have n: "N_tasks q' = N_tasks (queue_process s)" if p: "processes_ok jid job s"
      proof -
        have w: "worker_ok jid job (workers s ! k)"
          using p k by (simp add: processes_ok_def list_all_nth)
        have h: "list_all (valid_result jid job) (w2q_results [msg])"
          using w Cons w2q_results_head [of "valid_result jid job" msg rest]
          by (simp add: worker_ok_def)
        show ?thesis
          using process_worker_pipe_message_ok [OF Inr [unfolded res] _ _ _ h] p
          by (simp add: processes_ok_def)
      qed
      have ok: "processes_ok jid job (s\<lparr>workers := (workers s)[k := (workers s ! k)
                 \<lparr>pipe_to_queue := rest,
                  pipe_from_queue := pipe_from_queue (workers s ! k) @ replies\<rparr>],
              queue_process := q'\<rparr>)" if p: "processes_ok jid job s"
      proof -
        have w: "worker_ok jid job (workers s ! k)"
          using p k by (simp add: processes_ok_def list_all_nth)
        have h: "list_all (valid_result jid job) (w2q_results [msg])"
          using w Cons w2q_results_head [of "valid_result jid job" msg rest]
          by (simp add: worker_ok_def)
        have q: "list_all (valid_task jid job) (queue q') \<and>
         list_all (valid_result jid job) (results q') \<and>
         map_ordered (results q') \<and>
         list_all (valid_task jid job) (q2w_tasks replies) \<and>
         N_tasks q' = N_tasks (queue_process s) \<and> is_queue q' = is_queue (queue_process s) \<and>
         is_master q' = is_master (queue_process s)"
          using process_worker_pipe_message_ok [OF Inr [unfolded res] _ _ _ h] p
          by (simp add: processes_ok_def)
        have "worker_ok jid job ((workers s ! k)\<lparr>pipe_to_queue := rest,
                  pipe_from_queue := pipe_from_queue (workers s ! k) @ replies\<rparr>)"
          using w q Cons w2q_results_tail [of "valid_result jid job" msg rest]
          by (simp add: worker_ok_def q2w_tasks_append)
        then show ?thesis
          using p q by (simp add: processes_ok_def list_all_update)
      qed
      have pk: "processes_ok jid job s \<or> (\<exists>r. master_pc (master s) = Returned r)"
        using assms by (cases "master_pc (master s)") (simp_all add: run_invariant_def)
      show ?thesis
      proof (cases "processes_ok jid job s")
        case True
        show ?thesis
          unfolding st by (rule run_invariant_frame [OF assms]) (simp_all add: ok n True)
      next
        case False
        then obtain r where "master_pc (master s) = Returned r" using pk by blast
        then show ?thesis
          using assms unfolding st by (simp add: run_invariant_def)
      qed
    qed
  qed
qed

subsection \<open>What the master gathers\<close>

lemma serial_fold:
  "n \<le> length (xsq_result job) \<Longrightarrow>
   fold (\<lambda>ix j. j\<lparr>xsq_result := (xsq_result j)[ix := (xsq_x j ! ix)\<^sup>2 + xsq_b j]\<rparr>) [0..<n] job
     = job\<lparr>xsq_result := map (\<lambda>ix. (xsq_x job ! ix)\<^sup>2 + xsq_b job) [0..<n] @ drop n (xsq_result job)\<rparr>"
proof (induction n)
  case 0
  show ?case by simp
next
  case (Suc n)
  have d: "drop n (xsq_result job) = xsq_result job ! n # drop (Suc n) (xsq_result job)"
    using Suc.prems by (simp add: Cons_nth_drop_Suc)
  show ?case
    using Suc by (simp add: d list_update_append)
qed

lemma get_result_serial_eq:
  "length (xsq_result job) = length (xsq_x job) \<Longrightarrow>
   get_result_serial job = map (\<lambda>ix. (xsq_x job ! ix)\<^sup>2 + xsq_b job) [0..<length (xsq_x job)]"
  by (simp add: get_result_serial_def evaluate_serial_def serial_fold)

lemma copy_fold:
  "n \<le> length (xsq_result job) \<Longrightarrow>
   fold (\<lambda>ix j. j\<lparr>xsq_result := (xsq_result j)[ix := h ix]\<rparr>) [0..<n] job
     = job\<lparr>xsq_result := map h [0..<n] @ drop n (xsq_result job)\<rparr>"
proof (induction n)
  case 0
  show ?case by simp
next
  case (Suc n)
  have d: "drop n (xsq_result job) = xsq_result job ! n # drop (Suc n) (xsq_result job)"
    using Suc.prems by (simp add: Cons_nth_drop_Suc)
  show ?case
    using Suc by (simp add: d list_update_append)
qed

lemma copy_results_pc:
  "length (xsq_result (master_job m)) = length (xsq_x (master_job m)) \<Longrightarrow>
   master_pc (copy_results m)
     = Returned (map (map_index (ipqm_results m)) [0..<length (xsq_x (master_job m))])"
  by (simp add: copy_results_def Let_def copy_fold)

lemma map_of_fold_assign:
  assumes "\<forall>item \<in> set items. sel item \<longrightarrow> val item = g (key item)"
    and "(\<exists>item \<in> set items. sel item \<and> key item = k) \<or> map_of m0 k = Some (g k)"
  shows "map_of (fold (\<lambda>item m. if sel item then map_assign m (key item) (val item) else m)
           items m0) k = Some (g k)"
  using assms
proof (induction items arbitrary: m0)
  case Nil
  then show ?case by simp
next
  case (Cons a items)
  define m1 where "m1 = (if sel a then map_assign m0 (key a) (val a) else m0)"
  have "(\<exists>item \<in> set items. sel item \<and> key item = k) \<or> map_of m1 k = Some (g k)"
    using Cons.prems by (auto simp add: m1_def map_assign_map_of)
  moreover have "\<forall>item \<in> set items. sel item \<longrightarrow> val item = g (key item)"
    using Cons.prems(1) by simp
  ultimately have "map_of (fold (\<lambda>item m. if sel item then map_assign m (key item) (val item) else m)
           items m1) k = Some (g k)"
    by (rule Cons.IH [rotated])
  then show ?case by (simp add: m1_def)
qed

lemma fold_assign_all:
  assumes "list_all P items" "list_all P m0"
  shows "list_all P (fold (\<lambda>item m. map_assign m (fst item) (snd item)) items m0)"
  using assms
proof (induction items arbitrary: m0)
  case Nil
  then show ?case by simp
next
  case (Cons a items)
  have "list_all P (map_assign m0 (fst a) (snd a))"
    using Cons.prems by (simp add: map_assign_all)
  then show ?case using Cons by simp
qed

lemma keys_cover:
  assumes o: "map_ordered items" and l: "length items = length (xsq_x job)"
    and v: "list_all (valid_result jid job) items" and t: "t < length (xsq_x job)"
  shows "\<exists>item \<in> set items. fst item = (jid, t)"
proof -
  let ?A = "fst ` set items"
  let ?B = "(\<lambda>t. (jid, t)) ` {..<length (xsq_x job)}"
  have d: "distinct (map fst items)"
    using o by (simp add: map_ordered_def strict_sorted_iff)
  have ca: "card ?A = length (xsq_x job)"
    using distinct_card [OF d] l by simp
  have cb: "card ?B = length (xsq_x job)"
    by (simp add: card_image inj_on_def)
  have sub: "?A \<subseteq> ?B"
    using v by (auto simp add: list_all_iff valid_result_def valid_task_def)
  have "?A = ?B"
    by (rule card_subset_eq) (simp_all add: sub ca cb)
  then have "(jid, t) \<in> ?A" using t by auto
  then show ?thesis by force
qed

lemma gathered_results:
  assumes o: "map_ordered items" and l: "length items = length (xsq_x job)"
    and v: "list_all (valid_result jid job) items" and t: "t < length (xsq_x job)"
  shows "map_index
           (fold (\<lambda>item r. if fst (fst item) = jid
                           then map_assign r (snd (fst item)) (snd item) else r)
              (fold (\<lambda>item m. map_assign m (fst item) (snd item)) items []) []) t
         = (xsq_x job ! t)\<^sup>2 + xsq_b job"
proof -
  define rs where "rs = fold (\<lambda>item m. map_assign m (fst item) (snd item)) items []"
  have rv: "list_all (valid_result jid job) rs"
    unfolding rs_def by (rule fold_assign_all [OF v]) simp
  obtain item where it: "item \<in> set items" "fst item = (jid, t)"
    using keys_cover [OF o l v t] by blast
  have a: "\<forall>item \<in> set items. True \<longrightarrow> snd item = (\<lambda>jt. (xsq_x job ! snd jt)\<^sup>2 + xsq_b job) (fst item)"
    using v by (simp add: list_all_iff valid_result_def)
  have "map_of (fold (\<lambda>item m. if True then map_assign m (fst item) (snd item) else m) items []) (jid, t)
          = Some ((\<lambda>jt. (xsq_x job ! snd jt)\<^sup>2 + xsq_b job) (jid, t))"
    by (rule map_of_fold_assign [where sel = "\<lambda>item. True" and key = fst and val = snd
          and g = "\<lambda>jt. (xsq_x job ! snd jt)\<^sup>2 + xsq_b job", OF a]) (use it in auto)
  then have m: "map_of rs (jid, t) = Some ((xsq_x job ! t)\<^sup>2 + xsq_b job)"
    by (simp add: rs_def)
  then have mem: "((jid, t), (xsq_x job ! t)\<^sup>2 + xsq_b job) \<in> set rs"
    by (rule map_of_SomeD)
  have b: "\<forall>item \<in> set rs. fst (fst item) = jid \<longrightarrow>
             snd item = (\<lambda>u. (xsq_x job ! u)\<^sup>2 + xsq_b job) (snd (fst item))"
    using rv by (simp add: list_all_iff valid_result_def)
  have "map_of (fold (\<lambda>item r. if fst (fst item) = jid
                           then map_assign r (snd (fst item)) (snd item) else r) rs []) t
          = Some ((\<lambda>u. (xsq_x job ! u)\<^sup>2 + xsq_b job) t)"
    by (rule map_of_fold_assign [where sel = "\<lambda>item. fst (fst item) = jid"
          and key = "\<lambda>item. snd (fst item)" and val = snd
          and g = "\<lambda>u. (xsq_x job ! u)\<^sup>2 + xsq_b job", OF b]) (use mem in force)
  then show ?thesis
    by (simp add: map_index_def rs_def)
qed

subsection \<open>The moves of the queue on the master's pipe\<close>

lemma enqueue_messages_append:
  "enqueue_messages jid job (a @ b) \<longleftrightarrow> enqueue_messages jid job a \<and> enqueue_messages jid job b"
  by (simp add: enqueue_messages_def)

lemma enqueue_messages_head:
  assumes "enqueue_messages jid job (msg # rest)"
  shows "\<exists>t. msg = M2Q_enqueue jid t \<and> t < length (xsq_x job) \<and> enqueue_messages jid job rest"
  using assms by (cases msg) (simp_all add: enqueue_messages_def valid_task_def)

lemma queue_enqueue:
  assumes "is_queue q" "\<not> is_master q"
  shows "process_queue_pipe_message (M2Q_enqueue j t) q
           = Inr (True, [], [], q\<lparr>queue := queue q @ [(j, t)], N_tasks := N_tasks q + 1\<rparr>)"
  using assms by (simp add: process_queue_pipe_message_def to_queue_def)

lemma step_queue_enqueue:
  assumes q: "queue_pc s = Queue_loop" and m: "m2q_pipe s = M2Q_enqueue jid t # rest"
    and p: "processes_ok jid job s" and t: "t < length (xsq_x job)"
  shows "system_step Queue_reads_master s
           = s\<lparr>m2q_pipe := rest, q2m_pipe := q2m_pipe s,
               queue_process := (queue_process s)
                 \<lparr>queue := queue (queue_process s) @ [(jid, t)],
                  N_tasks := N_tasks (queue_process s) + 1\<rparr>\<rparr>"
    and "processes_ok jid job (system_step Queue_reads_master s)"
proof -
  have iq: "is_queue (queue_process s)" "\<not> is_master (queue_process s)"
    using p by (simp_all add: processes_ok_def)
  show st: "system_step Queue_reads_master s
           = s\<lparr>m2q_pipe := rest, q2m_pipe := q2m_pipe s,
               queue_process := (queue_process s)
                 \<lparr>queue := queue (queue_process s) @ [(jid, t)],
                  N_tasks := N_tasks (queue_process s) + 1\<rparr>\<rparr>"
    using q m by (simp add: system_step_def queue_enqueue [OF iq])
  show "processes_ok jid job (system_step Queue_reads_master s)"
    unfolding st using p t by (simp add: processes_ok_def valid_task_def)
qed

lemma step_Queue_reads_master:
  assumes inv: "run_invariant jid job s"
  shows "run_invariant jid job (system_step Queue_reads_master s)"
proof (cases "queue_pc s = Queue_loop \<and> m2q_pipe s \<noteq> []")
  case False
  then have "system_step Queue_reads_master s = s"
    by (auto simp add: system_step_def split: list.splits)
  then show ?thesis using inv by simp
next
  case True
  then obtain msg rest where q: "queue_pc s = Queue_loop" and m: "m2q_pipe s = msg # rest"
    by (cases "m2q_pipe s") auto
  show ?thesis
  proof (cases "master_pc (master s)")
    case (Enqueue_next ix)
    have h: "processes_ok jid job s" "ix \<le> length (xsq_x job)" "q2m_pipe s = []"
      "enqueue_messages jid job (m2q_pipe s)"
      "N_tasks (queue_process s) + length (m2q_pipe s) = ix"
      using inv Enqueue_next by (simp_all add: run_invariant_def)
    obtain t where t: "msg = M2Q_enqueue jid t" "t < length (xsq_x job)"
      "enqueue_messages jid job rest"
      using enqueue_messages_head h(4) m by metis
    note st = step_queue_enqueue [OF q m [unfolded t(1)] h(1) t(2)]
    show ?thesis
      using Enqueue_next h t m st(2) by (simp add: run_invariant_def st(1))
  next
    case Retrieve_send
    have h: "processes_ok jid job s" "q2m_pipe s = []"
      "enqueue_messages jid job (m2q_pipe s)"
      "N_tasks (queue_process s) + length (m2q_pipe s) = length (xsq_x job)"
      using inv Retrieve_send by (simp_all add: run_invariant_def)
    obtain t where t: "msg = M2Q_enqueue jid t" "t < length (xsq_x job)"
      "enqueue_messages jid job rest"
      using enqueue_messages_head h(3) m by metis
    note st = step_queue_enqueue [OF q m [unfolded t(1)] h(1) t(2)]
    show ?thesis
      using Retrieve_send h t m st(2) by (simp add: run_invariant_def st(1))
  next
    case Retrieve_wait
    have p: "processes_ok jid job s" and hp: "handshake_pending jid job s"
      using inv Retrieve_wait by (simp_all add: run_invariant_def)
    have h: "q2m_pipe s = []" "last (m2q_pipe s) = M2Q_retrieve"
      "enqueue_messages jid job (butlast (m2q_pipe s))"
      "N_tasks (queue_process s) + length (butlast (m2q_pipe s)) = length (xsq_x job)"
      using hp m by (auto simp add: handshake_pending_def)
    show ?thesis
    proof (cases rest)
      case Nil
      have msg: "msg = M2Q_retrieve" using h(2) m Nil by simp
      have n: "N_tasks (queue_process s) = length (xsq_x job)" using h(4) m Nil by simp
      show ?thesis
      proof (cases "queue (queue_process s) = [] \<and>
                    length (results (queue_process s)) = N_tasks (queue_process s)")
        case True
        have st: "system_step Queue_reads_master s
            = s\<lparr>m2q_pipe := [],
                q2m_pipe := [Q2M_retrieve_accepted (N_tasks (queue_process s)) (results (queue_process s))],
                queue_process := (queue_process s)\<lparr>results := [], N_tasks := 0\<rparr>\<rparr>"
          using q m Nil msg True h(1) by (simp add: system_step_def process_queue_pipe_message_def)
        show ?thesis
          unfolding st using Retrieve_wait p n True
          by (simp add: run_invariant_def handshake_pending_def processes_ok_def map_ordered_def)
      next
        case False
        have st: "system_step Queue_reads_master s
            = s\<lparr>m2q_pipe := [], q2m_pipe := [Q2M_retrieve_rejected], queue_process := queue_process s\<rparr>"
          using q m Nil msg False h(1) by (auto simp add: system_step_def process_queue_pipe_message_def)
        show ?thesis
          unfolding st using Retrieve_wait p n
          by (simp add: run_invariant_def handshake_pending_def processes_ok_def)
      qed
    next
      case (Cons m' rest')
      have bl: "butlast (m2q_pipe s) = msg # butlast rest" "last (m2q_pipe s) = last rest"
        using m Cons by simp_all
      obtain t where t: "msg = M2Q_enqueue jid t" "t < length (xsq_x job)"
        "enqueue_messages jid job (butlast rest)"
        using enqueue_messages_head h(3) bl(1) by metis
      note st = step_queue_enqueue [OF q m [unfolded t(1)] p t(2)]
      have "handshake_pending jid job (system_step Queue_reads_master s)"
        unfolding st(1) using h t bl Cons by (simp add: handshake_pending_def)
      then show ?thesis
        using Retrieve_wait st(2) by (simp add: run_invariant_def st(1))
    qed
  next
    case (Returned r)
    have "master (system_step Queue_reads_master s) = master s"
      by (auto simp add: system_step_def split: list.splits sum.splits)
    then show ?thesis using inv Returned by (simp add: run_invariant_def)
  next
    case (Master_thrown e)
    then show ?thesis using inv by (simp add: run_invariant_def)
  qed
qed

subsection \<open>The moves of the master, and every run\<close>

lemma master_to_queue:
  assumes "is_master q"
  shows "\<exists>q'. to_queue jt q = Inr ([M2Q_enqueue (fst jt) (snd jt)], q') \<and> is_master q' \<and>
              results q' = results q"
  using assms by (simp add: to_queue_def activate_def Let_def)

lemma step_Master:
  assumes inv: "run_invariant jid job s"
    and wf: "length (xsq_result job) = length (xsq_x job)"
  shows "run_invariant jid job (system_step Master s)"
proof (cases "master_pc (master s)")
  case (Enqueue_next ix)
  have h: "processes_ok jid job s" "ix \<le> length (xsq_x job)" "q2m_pipe s = []"
    "enqueue_messages jid job (m2q_pipe s)"
    "N_tasks (queue_process s) + length (m2q_pipe s) = ix"
    using inv Enqueue_next by (simp_all add: run_invariant_def)
  have pm: "is_master (master_ipqm (master s))" "job_id (master s) = jid"
    "xsq_x (master_job (master s)) = xsq_x job" "\<not> retrieved (master s)"
    using h(1) by (simp_all add: processes_ok_def)
  show ?thesis
  proof (cases "ix < length (xsq_x job)")
    case True
    obtain q' where q': "to_queue (jid, ix) (master_ipqm (master s)) = Inr ([M2Q_enqueue jid ix], q')"
      "is_master q'" "results q' = results (master_ipqm (master s))"
      using master_to_queue [OF pm(1), of "(jid, ix)"] by auto
    have st: "system_step Master s
        = s\<lparr>master := (master s)\<lparr>master_ipqm := q', master_pc := Enqueue_next (ix + 1)\<rparr>,
            m2q_pipe := m2q_pipe s @ [M2Q_enqueue jid ix], q2m_pipe := q2m_pipe s\<rparr>"
      using Enqueue_next True pm q' by (simp add: system_step_def master_step_def)
    show ?thesis
      unfolding st using h True q'(2,3)
      by (simp add: run_invariant_def processes_ok_def enqueue_messages_def valid_task_def)
  next
    case False
    have st: "system_step Master s
        = s\<lparr>master := (master s)\<lparr>master_pc := Retrieve_send\<rparr>,
            m2q_pipe := m2q_pipe s @ [], q2m_pipe := q2m_pipe s\<rparr>"
      using Enqueue_next False pm by (simp add: system_step_def master_step_def)
    show ?thesis
      unfolding st using h False
      by (simp add: run_invariant_def processes_ok_def)
  qed
next
  case Retrieve_send
  have h: "processes_ok jid job s" "q2m_pipe s = []"
    "enqueue_messages jid job (m2q_pipe s)"
    "N_tasks (queue_process s) + length (m2q_pipe s) = length (xsq_x job)"
    using inv Retrieve_send by (simp_all add: run_invariant_def)
  have st: "system_step Master s
      = s\<lparr>master := (master s)\<lparr>master_pc := Retrieve_wait\<rparr>,
          m2q_pipe := m2q_pipe s @ [M2Q_retrieve], q2m_pipe := q2m_pipe s\<rparr>"
    using Retrieve_send by (simp add: system_step_def master_step_def)
  show ?thesis
    unfolding st using h
    by (simp add: run_invariant_def processes_ok_def handshake_pending_def)
next
  case Retrieve_wait
  have p: "processes_ok jid job s" and hp: "handshake_pending jid job s"
    using inv Retrieve_wait by (simp_all add: run_invariant_def)
  show ?thesis
  proof (cases "q2m_pipe s")
    case Nil
    then have "system_step Master s = s"
      using Retrieve_wait by (simp add: system_step_def master_step_def)
    then show ?thesis using inv by simp
  next
    case (Cons hs rest)
    have m: "m2q_pipe s = []" "rest = []"
      using hp Cons by (auto simp add: handshake_pending_def)
    show ?thesis
    proof (cases hs)
      case Q2M_terminate
      then show ?thesis
        using hp Cons by (auto simp add: handshake_pending_def)
    next
      case Q2M_retrieve_rejected
      have n: "N_tasks (queue_process s) = length (xsq_x job)"
        using hp Cons Q2M_retrieve_rejected by (auto simp add: handshake_pending_def)
      have st: "system_step Master s
          = s\<lparr>master := (master s)\<lparr>master_pc := Retrieve_send\<rparr>,
              m2q_pipe := m2q_pipe s @ [], q2m_pipe := []\<rparr>"
        using Retrieve_wait Cons Q2M_retrieve_rejected m
        by (simp add: system_step_def master_step_def)
      show ?thesis
        unfolding st using p n m
        by (simp add: run_invariant_def processes_ok_def enqueue_messages_def)
    next
      case (Q2M_retrieve_accepted n items)
      have it: "n = length (xsq_x job)" "length items = n" "map_ordered items"
        "list_all (valid_result jid job) items"
        using hp Cons Q2M_retrieve_accepted m by (auto simp add: handshake_pending_def)
      have pm: "job_id (master s) = jid" "xsq_x (master_job (master s)) = xsq_x job"
        "length (xsq_result (master_job (master s))) = length (xsq_x job)"
        "ipqm_results (master s) = []" "results (master_ipqm (master s)) = []"
        using p by (simp_all add: processes_ok_def)
      define q where "q = (master_ipqm (master s))\<lparr>N_tasks := n,
          results := fold (\<lambda>item m. map_assign m (fst item) (snd item)) items []\<rparr>"
      have ra: "retrieve_accepted n items (master_ipqm (master s)) = Some q"
        using it(2) pm(5) by (simp add: retrieve_accepted_def q_def)
      define m' where "m' = gather_results ((master s)\<lparr>master_ipqm := q\<rparr>)"
      have st: "system_step Master s
          = s\<lparr>master := copy_results m', m2q_pipe := m2q_pipe s @ [], q2m_pipe := rest\<rparr>"
        using Retrieve_wait Cons Q2M_retrieve_accepted ra
        by (simp add: system_step_def master_step_def m'_def)
      have ir: "ipqm_results m'
          = fold (\<lambda>item r. if fst (fst item) = jid
                           then map_assign r (snd (fst item)) (snd item) else r)
              (fold (\<lambda>item m. map_assign m (fst item) (snd item)) items []) []"
        using pm(1,4) by (simp add: m'_def gather_results_def q_def)
      have mj: "master_job m' = master_job (master s)"
        by (simp add: m'_def gather_results_def)
      have pc: "master_pc (copy_results m')
          = Returned (map (map_index (ipqm_results m')) [0..<length (xsq_x job)])"
        using copy_results_pc [of m'] pm(2,3) mj by simp
      have vals: "map (map_index (ipqm_results m')) [0..<length (xsq_x job)]
          = map (\<lambda>ix. (xsq_x job ! ix)\<^sup>2 + xsq_b job) [0..<length (xsq_x job)]"
        unfolding ir using gathered_results [OF it(3) it(2) [unfolded it(1)] it(4)]
        by (simp add: map_eq_conv)
      show ?thesis
        unfolding st using pc vals get_result_serial_eq [OF wf]
        by (simp add: run_invariant_def)
    qed
  qed
next
  case (Returned r)
  then have "system_step Master s = s"
    by (simp add: system_step_def master_step_def)
  then show ?thesis using inv by simp
next
  case (Master_thrown e)
  then show ?thesis using inv by (simp add: run_invariant_def)
qed

lemma system_step_invariant:
  assumes "run_invariant jid job s" and "length (xsq_result job) = length (xsq_x job)"
  shows "run_invariant jid job (system_step a s)"
proof (cases a)
  case Master
  then show ?thesis using step_Master [OF assms] by simp
next
  case Queue_reads_master
  then show ?thesis using step_Queue_reads_master [OF assms(1)] by simp
next
  case (Queue_reads_worker k)
  then show ?thesis using step_Queue_reads_worker [OF assms(1)] by simp
next
  case (Worker k)
  then show ?thesis using step_Worker [OF assms(1)] by simp
qed

lemma run_keeps_invariant:
  assumes "run_invariant jid job s" and "length (xsq_result job) = length (xsq_x job)"
  shows "run_invariant jid job (run schedule s)"
  using assms(1) unfolding run_def
proof (induction schedule arbitrary: s)
  case Nil
  then show ?case by simp
next
  case (Cons a schedule)
  have "run_invariant jid job (system_step a s)"
    by (rule system_step_invariant [OF Cons.prems assms(2)])
  then show ?case using Cons.IH by simp
qed

lemma forked_system_invariant:
  assumes "length (xsq_result job) = length (xsq_x job)"
  shows "run_invariant jid job (forked_system N_workers jid job)"
  using assms
  by (simp add: run_invariant_def forked_system_def processes_ok_def forked_ipqm_def
      forked_worker_def worker_ok_def enqueue_messages_def map_ordered_def list_all_iff)

lemma returned_result:
  assumes "length (xsq_result job) = length (xsq_x job)"
    and "master_pc (master (run schedule (forked_system N_workers jid job))) = Returned r"
  shows "r = get_result_serial job"
  using run_keeps_invariant [OF forked_system_invariant [OF assms(1)] assms(1), where jid = jid and N_workers1 = N_workers
      and schedule = schedule]
    assms(2)
  by (simp add: run_invariant_def)

subsection \<open>The test case\<close>

lemma test_job_serial: "get_result_serial test_job = [3, 4, 7, 12]"
  by code_simp

lemma round_robin_1:
  "master_pc (master (run (round_robin 1 13) (forked_system 1 0 test_job))) = Returned [3, 4, 7, 12]"
  by code_simp

lemma round_robin_2:
  "master_pc (master (run (round_robin 2 13) (forked_system 2 0 test_job))) = Returned [3, 4, 7, 12]"
  by code_simp

lemma round_robin_3:
  "master_pc (master (run (round_robin 3 13) (forked_system 3 0 test_job))) = Returned [3, 4, 7, 12]"
  by code_simp

lemma test_job_wf: "length (xsq_result test_job) = length (xsq_x test_job)"
  by (simp add: test_job_def xSquaredPlusBVectorSerial_def)

text \<open>
  C9. The job with \<open>x = (0, 1, 2, 3)\<close> and \<open>b = 3\<close> evaluates serially to \<open>(3, 4, 7, 12)\<close>.
  Run through the manager with one, two or three workers, every process moving in turn,
  the master returns \<open>(3, 4, 7, 12)\<close> from \<^verbatim>\<open>get_result\<close> within thirteen rounds; and for
  every number of workers and every schedule, a vector the master returns is
  \<open>(3, 4, 7, 12)\<close>, the serial result.
\<close>

theorem task_manager_smoke:
  "get_result_serial test_job = [3, 4, 7, 12] \<and>
   (\<forall>N_workers \<in> {1, 2, 3}.
      master_pc (master (run (round_robin N_workers 13) (forked_system N_workers 0 test_job)))
        = Returned [3, 4, 7, 12]) \<and>
   (\<forall>N_workers schedule r.
      master_pc (master (run schedule (forked_system N_workers jid test_job))) = Returned r
        \<longrightarrow> r = [3, 4, 7, 12] \<and> r = get_result_serial test_job)"
proof (intro conjI allI impI ballI)
  show "get_result_serial test_job = [3, 4, 7, 12]" by (rule test_job_serial)
next
  fix N_workers :: nat
  assume "N_workers \<in> {1, 2, 3}"
  then consider "N_workers = 1" | "N_workers = 2" | "N_workers = 3" by auto
  then show "master_pc (master (run (round_robin N_workers 13) (forked_system N_workers 0 test_job)))
        = Returned [3, 4, 7, 12]"
    using round_robin_1 round_robin_2 round_robin_3 by cases simp_all
next
  fix N_workers schedule r
  assume "master_pc (master (run schedule (forked_system N_workers jid test_job))) = Returned r"
  then have "r = get_result_serial test_job"
    by (rule returned_result [OF test_job_wf])
  then show "r = [3, 4, 7, 12]" "r = get_result_serial test_job"
    by (simp_all add: test_job_serial)
qed

theorem task_manager_smoke_witness:
  "(2::nat) \<in> {1, 2, 3} \<and>
   master_pc (master (run (round_robin 2 13) (forked_system 2 0 test_job))) = Returned [3, 4, 7, 12] \<and>
   [3, 4, 7, 12] = get_result_serial test_job"
proof -
  have m: "(2::nat) \<in> {1, 2, 3}" by simp
  have a: "master_pc (master (run (round_robin 2 13) (forked_system 2 0 test_job)))
             = Returned [3, 4, 7, 12]"
    using task_manager_smoke [of 0] m by blast
  have b: "[3, 4, 7, 12] = get_result_serial test_job"
    using task_manager_smoke [of 0] a by blast
  show ?thesis using m a b by (intro conjI)
qed

subsection \<open>Every task is handed out once and answered once\<close>

lemma in_flight_update:
  assumes "k < length ws"
  shows "in_flight (ws[k := w]) + worker_tokens (ws ! k) = in_flight ws + worker_tokens w"
proof -
  have ws: "ws = take k ws @ ws ! k # drop (Suc k) ws"
    using assms by (simp add: id_take_nth_drop)
  have up: "ws[k := w] = take k ws @ w # drop (Suc k) ws"
    using assms by (simp add: upd_conv_take_nth_drop)
  have a: "in_flight ws = in_flight (take k ws) + worker_tokens (ws ! k) + in_flight (drop (Suc k) ws)"
    by (subst ws) (simp add: in_flight_def)
  have b: "in_flight (ws[k := w]) = in_flight (take k ws) + worker_tokens w + in_flight (drop (Suc k) ws)"
    by (subst up) (simp add: in_flight_def)
  show ?thesis
    unfolding a b by (simp add: ac_simps)
qed

lemma in_flight_update_le:
  assumes "k < length ws" and "worker_tokens w \<subseteq># worker_tokens (ws ! k)"
  shows "in_flight (ws[k := w]) \<subseteq># in_flight ws"
proof -
  have "in_flight (ws[k := w]) + worker_tokens (ws ! k) \<subseteq># in_flight ws + worker_tokens (ws ! k)"
    unfolding in_flight_update [OF assms(1)] using assms(2) by (simp add: subset_mset.add_left_mono)
  then show ?thesis by simp
qed

lemma in_flight_update_add:
  assumes "k < length ws" and "worker_tokens w = worker_tokens (ws ! k) + X"
  shows "in_flight (ws[k := w]) = in_flight ws + X"
proof -
  have "in_flight (ws[k := w]) + worker_tokens (ws ! k) = in_flight ws + X + worker_tokens (ws ! k)"
    unfolding in_flight_update [OF assms(1)] assms(2) by (simp add: ac_simps)
  then show ?thesis by simp
qed

lemma in_flight_update_eq:
  assumes "k < length ws" and "worker_tokens w = worker_tokens (ws ! k)"
  shows "in_flight (ws[k := w]) = in_flight ws"
  using in_flight_update_add [OF assms(1), of w "{#}"] assms(2) by simp

lemma in_flight_update_remove:
  assumes "k < length ws" and "worker_tokens w + X = worker_tokens (ws ! k)"
  shows "in_flight (ws[k := w]) + X = in_flight ws"
proof -
  have "in_flight (ws[k := w]) + (worker_tokens w + X) = in_flight ws + worker_tokens w"
    unfolding assms(2) by (rule in_flight_update [OF assms(1)])
  then have "(in_flight (ws[k := w]) + X) + worker_tokens w = in_flight ws + worker_tokens w"
    by (simp only: ac_simps)
  then show ?thesis by (simp only: add_right_cancel)
qed

lemma in_flight_terminate: "in_flight (terminate_workers q ws) = in_flight ws"
proof -
  have "in_flight (map (\<lambda>w. w\<lparr>pipe_from_queue := pipe_from_queue w @ [Q2W_terminate]\<rparr>) ws)
          = in_flight ws"
    by (induction ws) (simp_all add: in_flight_def worker_tokens_def q2w_tasks_append)
  then show ?thesis by (simp add: terminate_workers_def)
qed

lemma work_mode_message_tokens:
  "worker_tokens (work_mode_message msg (w\<lparr>pipe_from_queue := rest\<rparr>))
     \<subseteq># worker_tokens (w\<lparr>pipe_from_queue := msg # rest\<rparr>)"
  by (cases msg)
    (auto simp add: work_mode_message_def worker_tokens_def w2q_results_append
      split: option.splits)

lemma idle_mode_message_tokens:
  "worker_tokens (idle_mode_message msg (w\<lparr>pipe_from_queue := rest\<rparr>))
     \<subseteq># worker_tokens (w\<lparr>pipe_from_queue := msg # rest\<rparr>)"
  by (cases msg) (auto simp add: idle_mode_message_def worker_tokens_def w2q_results_append)

lemma tail_tokens:
  "worker_tokens (w\<lparr>pipe_from_queue := rest, worker_pc := pc\<rparr>)
     \<subseteq># worker_tokens (w\<lparr>pipe_from_queue := msg # rest\<rparr>)"
  by (cases msg) (auto simp add: worker_tokens_def)

lemma worker_loop_step_tokens:
  assumes "worker_loop_step w = Some w'"
  shows "worker_tokens w' \<subseteq># worker_tokens w"
proof (cases "worker_pc w")
  case Loop_top
  then show ?thesis
    using assms by (auto simp add: worker_loop_step_def worker_tokens_def w2q_results_append
        split: if_splits)
next
  case Await_dequeue_reply
  then obtain msg rest where p: "pipe_from_queue w = msg # rest"
    and w': "w' = work_mode_message msg (w\<lparr>pipe_from_queue := rest\<rparr>)"
    using assms by (auto simp add: worker_loop_step_def split: list.splits)
  have "w\<lparr>pipe_from_queue := msg # rest\<rparr> = w" using p by simp
  then show ?thesis
    using work_mode_message_tokens [where msg = msg and w = w and rest = rest] w' by simp
next
  case Await_result_received
  then obtain msg rest where p: "pipe_from_queue w = msg # rest"
    and w': "w' = w\<lparr>pipe_from_queue := rest, worker_pc := Worker_thrown runtime_error\<rparr> \<or>
             w' = w\<lparr>pipe_from_queue := rest, worker_pc := Loop_top\<rparr>"
    using assms by (auto simp add: worker_loop_step_def split: list.splits if_splits)
  have "w\<lparr>pipe_from_queue := msg # rest\<rparr> = w" using p by simp
  then show ?thesis
    using tail_tokens [where msg = msg and w = w and rest = rest] w' by auto
next
  case Await_message
  then obtain msg rest where p: "pipe_from_queue w = msg # rest"
    and w': "w' = idle_mode_message msg (w\<lparr>pipe_from_queue := rest\<rparr>)"
    using assms by (auto simp add: worker_loop_step_def split: list.splits)
  have "w\<lparr>pipe_from_queue := msg # rest\<rparr> = w" using p by simp
  then show ?thesis
    using idle_mode_message_tokens [where msg = msg and w = w and rest = rest] w' by simp
qed (use assms in \<open>simp_all add: worker_loop_step_def\<close>)

lemma accepted_phase_cong:
  "master_pc (master s') = master_pc (master s) \<Longrightarrow> q2m_pipe s' = q2m_pipe s \<Longrightarrow>
   accepted_phase s' = accepted_phase s"
  by (simp add: accepted_phase_def)

lemma trace_invariantI:
  assumes "is_queue (queue_process s)" "\<not> is_master (queue_process s)"
    and "E = map (Pair jid) [0..<sent_count job (master_pc (master s))]"
    and "mset (map snd D) + mset (queue (queue_process s)) + mset (m2q_tasks (m2q_pipe s)) = mset E"
    and "mset R + in_flight (workers s) \<subseteq># mset (map snd D)"
    and "set (map fst (results (queue_process s))) \<subseteq> set R"
    and "accepted_phase s \<Longrightarrow> mset E \<subseteq># mset R"
  shows "trace_invariant jid job s E D R"
proof -
  have "if accepted_phase s then mset E \<subseteq># mset R else True"
    using assms(7) by (cases "accepted_phase s") (simp_all only: if_True if_False)
  then show ?thesis
    unfolding trace_invariant_def using assms(1-6) by blast
qed

lemma trace_invariantD:
  assumes "trace_invariant jid job s E D R"
  shows "is_queue (queue_process s)" "\<not> is_master (queue_process s)"
    and "E = map (Pair jid) [0..<sent_count job (master_pc (master s))]"
    and "mset (map snd D) + mset (queue (queue_process s)) + mset (m2q_tasks (m2q_pipe s)) = mset E"
    and "mset R + in_flight (workers s) \<subseteq># mset (map snd D)"
    and "set (map fst (results (queue_process s))) \<subseteq> set R"
    and "accepted_phase s \<Longrightarrow> mset E \<subseteq># mset R"
proof -
  have c: "is_queue (queue_process s) \<and> \<not> is_master (queue_process s) \<and>
     E = map (Pair jid) [0..<sent_count job (master_pc (master s))] \<and>
     mset (map snd D) + mset (queue (queue_process s)) + mset (m2q_tasks (m2q_pipe s)) = mset E \<and>
     mset R + in_flight (workers s) \<subseteq># mset (map snd D) \<and>
     set (map fst (results (queue_process s))) \<subseteq> set R \<and>
     (if accepted_phase s then mset E \<subseteq># mset R else True)"
    using assms unfolding trace_invariant_def .
  show "is_queue (queue_process s)" "\<not> is_master (queue_process s)"
    "E = map (Pair jid) [0..<sent_count job (master_pc (master s))]"
    "mset (map snd D) + mset (queue (queue_process s)) + mset (m2q_tasks (m2q_pipe s)) = mset E"
    "mset R + in_flight (workers s) \<subseteq># mset (map snd D)"
    "set (map fst (results (queue_process s))) \<subseteq> set R"
    using c by blast+
  have "if accepted_phase s then mset E \<subseteq># mset R else True"
    using c by blast
  then show "accepted_phase s \<Longrightarrow> mset E \<subseteq># mset R"
    by (simp only: if_True)
qed

lemma trace_Worker:
  assumes ti: "trace_invariant jid job s E D R"
  shows "trace_invariant jid job (system_step (Worker k) s)
           (E @ enqueued_by (Worker k) s) (D @ delivered_by (Worker k) s)
           (R @ recorded_by (Worker k) s)"
proof -
  have logs: "enqueued_by (Worker k) s = []" "delivered_by (Worker k) s = []"
    "recorded_by (Worker k) s = []"
    by (simp_all add: enqueued_by_def delivered_by_def recorded_by_def)
  show ?thesis
  proof (cases "k < length (workers s)")
    case False
    then show ?thesis using ti by (simp add: system_step_def logs)
  next
    case True
    show ?thesis
    proof (cases "worker_loop_step (workers s ! k)")
      case None
      then show ?thesis using ti True by (simp add: system_step_def logs)
    next
      case (Some w)
      have st: "system_step (Worker k) s = s\<lparr>workers := (workers s)[k := w]\<rparr>"
        using True Some by (simp add: system_step_def)
      have le: "in_flight ((workers s)[k := w]) \<subseteq># in_flight (workers s)"
        by (rule in_flight_update_le [OF True worker_loop_step_tokens [OF Some]])
      have fl: "mset R + in_flight ((workers s)[k := w]) \<subseteq># mset (map snd D)"
      proof -
        have "mset R + in_flight ((workers s)[k := w]) \<subseteq># mset R + in_flight (workers s)"
          using le by (simp add: subset_mset.add_left_mono)
        also have "\<dots> \<subseteq># mset (map snd D)"
          using ti by (simp add: trace_invariant_def)
        finally show ?thesis .
      qed
      have ap: "accepted_phase (s\<lparr>workers := (workers s)[k := w]\<rparr>) = accepted_phase s"
        by (simp add: accepted_phase_def)
      note inv = trace_invariantD [OF ti]
      show ?thesis
        unfolding st logs append_Nil2
        by (rule trace_invariantI) (use inv fl in \<open>simp_all add: ap del: mset_map set_map\<close>)
    qed
  qed
qed

lemma mset_subset_trans_add:
  fixes A B C :: "'a multiset"
  shows "A \<subseteq># B \<Longrightarrow> A \<subseteq># B + C"
  by (simp add: subset_mset.add_increasing2)

lemma trace_Queue_reads_worker:
  assumes ti: "trace_invariant jid job s E D R"
  shows "trace_invariant jid job (system_step (Queue_reads_worker k) s)
           (E @ enqueued_by (Queue_reads_worker k) s) (D @ delivered_by (Queue_reads_worker k) s)
           (R @ recorded_by (Queue_reads_worker k) s)"
proof (cases "queue_reads_worker k s")
  case None
  then show ?thesis
    using ti by (simp add: system_step_def enqueued_by_def delivered_by_def recorded_by_def)
next
  case (Some res)
  obtain msg replies s' where res: "res = (msg, replies, s')" by (cases res)
  have logs: "enqueued_by (Queue_reads_worker k) s = []"
    "delivered_by (Queue_reads_worker k) s = map (Pair k) (q2w_tasks replies)"
    "recorded_by (Queue_reads_worker k) s = map fst (w2q_results [msg])"
    "system_step (Queue_reads_worker k) s = s'"
    using Some res by (simp_all add: enqueued_by_def delivered_by_def recorded_by_def system_step_def)
  have k: "k < length (workers s)" and ql: "queue_pc s = Queue_loop"
    using Some by (auto simp add: queue_reads_worker_def split: if_splits)
  obtain rest where p: "pipe_to_queue (workers s ! k) = msg # rest"
    using Some res k ql
    by (auto simp add: queue_reads_worker_def split: list.splits sum.splits)
  have inv: "is_queue (queue_process s)" "\<not> is_master (queue_process s)"
    "E = map (Pair jid) [0..<sent_count job (master_pc (master s))]"
    "mset (map snd D) + mset (queue (queue_process s)) + mset (m2q_tasks (m2q_pipe s)) = mset E"
    "mset R + in_flight (workers s) \<subseteq># mset (map snd D)"
    "set (map fst (results (queue_process s))) \<subseteq> set R"
    "accepted_phase s \<Longrightarrow> mset E \<subseteq># mset R"
    by (rule trace_invariantD [OF ti])+
  show ?thesis
  proof (cases msg)
    case W2Q_terminate
    have s': "s' = s\<lparr>workers := (workers s)[k := (workers s ! k)\<lparr>pipe_to_queue := rest\<rparr>],
                     queue_pc := Queue_thrown runtime_error\<rparr>" and r: "replies = []"
      using Some res k ql p W2Q_terminate
      by (auto simp add: queue_reads_worker_def process_worker_pipe_message_def)
    have tk: "worker_tokens ((workers s ! k)\<lparr>pipe_to_queue := rest\<rparr>) = worker_tokens (workers s ! k)"
      using p W2Q_terminate by (simp add: worker_tokens_def)
    have fl: "in_flight ((workers s)[k := (workers s ! k)\<lparr>pipe_to_queue := rest\<rparr>]) = in_flight (workers s)"
      by (rule in_flight_update_eq [OF k tk])
    have ap: "accepted_phase s' = accepted_phase s"
      unfolding s' by (simp add: accepted_phase_def)
    have fl': "in_flight (workers s') = in_flight (workers s)"
      unfolding s' using fl by simp
    have same: "queue_process s' = queue_process s" "master s' = master s" "m2q_pipe s' = m2q_pipe s"
      unfolding s' by simp_all
    show ?thesis
      unfolding logs W2Q_terminate r
      by (rule trace_invariantI)
        (use inv in \<open>simp_all add: ap fl' same del: mset_map set_map\<close>)
  next
    case W2Q_dequeue
    show ?thesis
    proof (cases "queue (queue_process s)")
      case Nil
      have s': "s' = s\<lparr>workers := (workers s)[k := (workers s ! k)
                      \<lparr>pipe_to_queue := rest,
                       pipe_from_queue := pipe_from_queue (workers s ! k) @ [Q2W_dequeue_rejected]\<rparr>],
                     queue_process := queue_process s\<rparr>" and r: "replies = [Q2W_dequeue_rejected]"
        using Some res k ql p W2Q_dequeue Nil
        by (auto simp add: queue_reads_worker_def process_worker_pipe_message_def from_queue_def)
      have tk: "worker_tokens ((workers s ! k)\<lparr>pipe_to_queue := rest,
                       pipe_from_queue := pipe_from_queue (workers s ! k) @ [Q2W_dequeue_rejected]\<rparr>)
                = worker_tokens (workers s ! k)"
        using p W2Q_dequeue by (simp add: worker_tokens_def q2w_tasks_append)
      have fl: "in_flight (workers s') = in_flight (workers s)"
        unfolding s' using in_flight_update_eq [OF k tk] by simp
      have ap: "accepted_phase s' = accepted_phase s"
        unfolding s' by (simp add: accepted_phase_def)
      have same: "queue_process s' = queue_process s" "master s' = master s" "m2q_pipe s' = m2q_pipe s"
        unfolding s' by simp_all
      show ?thesis
        unfolding logs W2Q_dequeue r
        by (rule trace_invariantI)
          (use inv in \<open>simp_all add: ap fl same del: mset_map set_map\<close>)
    next
      case (Cons jt qs)
      have s': "s' = s\<lparr>workers := (workers s)[k := (workers s ! k)
                      \<lparr>pipe_to_queue := rest,
                       pipe_from_queue := pipe_from_queue (workers s ! k)
                         @ [Q2W_dequeue_accepted (fst jt) (snd jt)]\<rparr>],
                     queue_process := (queue_process s)\<lparr>queue := qs\<rparr>\<rparr>"
        and r: "replies = [Q2W_dequeue_accepted (fst jt) (snd jt)]"
        using Some res k ql p W2Q_dequeue Cons
        by (auto simp add: queue_reads_worker_def process_worker_pipe_message_def from_queue_def)
      have tk: "worker_tokens ((workers s ! k)\<lparr>pipe_to_queue := rest,
                       pipe_from_queue := pipe_from_queue (workers s ! k)
                         @ [Q2W_dequeue_accepted (fst jt) (snd jt)]\<rparr>)
                = worker_tokens (workers s ! k) + {#jt#}"
        using p W2Q_dequeue by (simp add: worker_tokens_def q2w_tasks_append)
      have fl: "in_flight (workers s') = in_flight (workers s) + {#jt#}"
        unfolding s' using in_flight_update_add [OF k tk] by simp
      have ap: "accepted_phase s' = accepted_phase s"
        unfolding s' by (simp add: accepted_phase_def)
      have a4: "mset (map snd (D @ map (Pair k) (q2w_tasks replies))) + mset (queue (queue_process s'))
                  + mset (m2q_tasks (m2q_pipe s')) = mset E"
        using inv(4) Cons unfolding r s' by simp
      have a5: "mset (R @ map fst (w2q_results [msg])) + in_flight (workers s')
                  \<subseteq># mset (map snd (D @ map (Pair k) (q2w_tasks replies)))"
        using inv(5) W2Q_dequeue unfolding fl r by simp
      have rest_inv: "is_queue (queue_process s')" "\<not> is_master (queue_process s')"
        "master_pc (master s') = master_pc (master s)"
        "results (queue_process s') = results (queue_process s)"
        using inv(1,2) unfolding s' by simp_all
      have a3: "E @ [] = map (Pair jid) [0..<sent_count job (master_pc (master s'))]"
        using inv(3) rest_inv(3) by simp
      have a6: "set (map fst (results (queue_process s'))) \<subseteq> set (R @ map fst (w2q_results [msg]))"
        using inv(6) rest_inv(4) W2Q_dequeue by simp
      have a7: "accepted_phase s' \<Longrightarrow> mset (E @ []) \<subseteq># mset (R @ map fst (w2q_results [msg]))"
        using inv(7) W2Q_dequeue by (simp add: ap)
      show ?thesis
        unfolding logs
        by (rule trace_invariantI [OF rest_inv(1,2) a3 _ a5 a6 a7]) (use a4 in simp)
    qed
  next
    case (W2Q_send_result j t r)
    have s': "s' = s\<lparr>workers := (workers s)[k := (workers s ! k)
                      \<lparr>pipe_to_queue := rest,
                       pipe_from_queue := pipe_from_queue (workers s ! k) @ [Q2W_result_received]\<rparr>],
                     queue_process := (queue_process s)
                       \<lparr>results := map_assign (results (queue_process s)) (j, t) r\<rparr>\<rparr>"
      and rp: "replies = [Q2W_result_received]"
      using Some res k ql p W2Q_send_result
      by (auto simp add: queue_reads_worker_def process_worker_pipe_message_def)
    have tk: "worker_tokens ((workers s ! k)\<lparr>pipe_to_queue := rest,
                       pipe_from_queue := pipe_from_queue (workers s ! k) @ [Q2W_result_received]\<rparr>)
                + {#(j, t)#} = worker_tokens (workers s ! k)"
      using p W2Q_send_result by (simp add: worker_tokens_def q2w_tasks_append)
    have fl: "in_flight (workers s') + {#(j, t)#} = in_flight (workers s)"
      unfolding s' using in_flight_update_remove [OF k tk] by simp
    have ap: "accepted_phase s' = accepted_phase s"
      unfolding s' by (simp add: accepted_phase_def)
    have a5: "mset (R @ map fst (w2q_results [msg])) + in_flight (workers s')
                \<subseteq># mset (map snd (D @ map (Pair k) (q2w_tasks replies)))"
      using inv(5) W2Q_send_result unfolding fl [symmetric] rp by (simp add: ac_simps)
    have a4: "mset (map snd (D @ map (Pair k) (q2w_tasks replies))) + mset (queue (queue_process s'))
                + mset (m2q_tasks (m2q_pipe s')) = mset E"
      using inv(4) unfolding rp s' by simp
    have a6: "set (map fst (results (queue_process s'))) \<subseteq> set (R @ map fst (w2q_results [msg]))"
      using inv(6) W2Q_send_result map_assign_keys [of "results (queue_process s)" "(j, t)" r]
      unfolding s' by auto
    have a7: "accepted_phase s \<Longrightarrow> mset E \<subseteq># mset (R @ map fst (w2q_results [msg]))"
      using inv(7) by (simp add: mset_subset_trans_add)
    have rest_inv: "is_queue (queue_process s')" "\<not> is_master (queue_process s')"
      "master_pc (master s') = master_pc (master s)"
      using inv(1,2) unfolding s' by simp_all
    have a3: "E @ [] = map (Pair jid) [0..<sent_count job (master_pc (master s'))]"
      using inv(3) rest_inv(3) by simp
    have a7': "accepted_phase s' \<Longrightarrow> mset (E @ []) \<subseteq># mset (R @ map fst (w2q_results [msg]))"
      using a7 by (simp add: ap)
    show ?thesis
      unfolding logs
      by (rule trace_invariantI [OF rest_inv(1,2) a3 _ a5 a6 a7']) (use a4 in simp)
  qed
qed

lemma mset_subset_same_size:
  fixes A B :: "'a multiset"
  assumes "A \<subseteq># B" and "size B \<le> size A"
  shows "A = B"
proof -
  obtain C where C: "B = A + C" using assms(1) by (auto simp add: mset_subset_eq_exists_conv)
  then have "size C = 0" using assms(2) by simp
  then show ?thesis using C by simp
qed

lemma all_recorded:
  assumes d: "distinct (map fst rs)" and sub: "set (map fst rs) \<subseteq> set R"
    and l: "length rs = K" and le: "mset R \<subseteq># mset E" and lE: "length E = K"
  shows "mset E \<subseteq># mset R"
proof -
  have "K = card (set (map fst rs))"
    using distinct_card [OF d] l by simp
  also have "\<dots> \<le> card (set R)"
    by (rule card_mono [OF _ sub]) simp
  also have "\<dots> \<le> length R" by (rule card_length)
  finally have "size (mset E) \<le> size (mset R)" using lE by simp
  then have "mset R = mset E" by (rule mset_subset_same_size [OF le])
  then show ?thesis by simp
qed

lemma trace_below:
  assumes "trace_invariant jid job s E D R"
  shows "mset R \<subseteq># mset (map snd D)" and "mset (map snd D) \<subseteq># mset E"
proof -
  note inv = trace_invariantD [OF assms]
  have "mset R \<subseteq># mset R + in_flight (workers s)" by simp
  then show "mset R \<subseteq># mset (map snd D)"
    using inv(5) by (rule subset_mset.order_trans)
  have "mset (map snd D) \<subseteq># mset (map snd D) + (mset (queue (queue_process s)) + mset (m2q_tasks (m2q_pipe s)))"
    by simp
  then show "mset (map snd D) \<subseteq># mset E"
    unfolding inv(4) [symmetric] by (simp only: ac_simps)
qed

lemma trace_Queue_reads_master:
  assumes ri: "run_invariant jid job s" and ti: "trace_invariant jid job s E D R"
  shows "trace_invariant jid job (system_step Queue_reads_master s)
           (E @ enqueued_by Queue_reads_master s) (D @ delivered_by Queue_reads_master s)
           (R @ recorded_by Queue_reads_master s)"
proof -
  have logs: "enqueued_by Queue_reads_master s = []" "delivered_by Queue_reads_master s = []"
    "recorded_by Queue_reads_master s = []"
    by (simp_all add: enqueued_by_def delivered_by_def recorded_by_def)
  note inv = trace_invariantD [OF ti]
  show ?thesis
  proof (cases "queue_pc s = Queue_loop \<and> m2q_pipe s \<noteq> []")
    case False
    then have "system_step Queue_reads_master s = s"
      by (auto simp add: system_step_def split: list.splits)
    then show ?thesis using ti by (simp add: logs)
  next
    case True
    then obtain msg rest where q: "queue_pc s = Queue_loop" and m: "m2q_pipe s = msg # rest"
      by (cases "m2q_pipe s") auto
    show ?thesis
    proof (cases msg)
      case M2Q_terminate
      have st: "system_step Queue_reads_master s
          = s\<lparr>m2q_pipe := rest, q2m_pipe := q2m_pipe s, queue_process := queue_process s,
              workers := terminate_workers (queue_process s) (workers s), queue_pc := Queue_exited\<rparr>"
        using q m M2Q_terminate by (simp add: system_step_def process_queue_pipe_message_def)
      have ap: "accepted_phase (system_step Queue_reads_master s) = accepted_phase s"
        unfolding st by (simp add: accepted_phase_def)
      have a4: "mset (map snd D) + mset (queue (queue_process s)) + mset (m2q_tasks rest) = mset E"
        using inv(4) m M2Q_terminate by simp
      show ?thesis
        unfolding logs append_Nil2
        by (rule trace_invariantI)
          (use inv a4 in \<open>simp_all add: ap in_flight_terminate del: mset_map set_map\<close>,
            simp_all add: st in_flight_terminate del: mset_map set_map)
    next
      case (M2Q_enqueue j t)
      have st: "system_step Queue_reads_master s
          = s\<lparr>m2q_pipe := rest, q2m_pipe := q2m_pipe s,
              queue_process := (queue_process s)
                \<lparr>queue := queue (queue_process s) @ [(j, t)],
                 N_tasks := N_tasks (queue_process s) + 1\<rparr>\<rparr>"
        using q m M2Q_enqueue by (simp add: system_step_def queue_enqueue [OF inv(1,2)])
      have ap: "accepted_phase (system_step Queue_reads_master s) = accepted_phase s"
        unfolding st by (simp add: accepted_phase_def)
      have a4: "mset (map snd D) + mset (queue (queue_process s) @ [(j, t)]) + mset (m2q_tasks rest)
                  = mset E"
        using inv(4) m M2Q_enqueue by simp
      show ?thesis
        unfolding logs append_Nil2
        by (rule trace_invariantI)
          (use inv a4 in \<open>simp_all add: ap del: mset_map set_map\<close>,
            simp_all add: st del: mset_map set_map)
    next
      case M2Q_retrieve
      have mt: "m2q_tasks rest = m2q_tasks (m2q_pipe s)"
        using m M2Q_retrieve by simp
      show ?thesis
      proof (cases "queue (queue_process s) = [] \<and>
                    length (results (queue_process s)) = N_tasks (queue_process s)")
        case False
        have st: "system_step Queue_reads_master s
            = s\<lparr>m2q_pipe := rest, q2m_pipe := q2m_pipe s @ [Q2M_retrieve_rejected],
                queue_process := queue_process s\<rparr>"
          using q m M2Q_retrieve False
          by (auto simp add: system_step_def process_queue_pipe_message_def)
        have ap: "accepted_phase (system_step Queue_reads_master s) \<Longrightarrow> accepted_phase s"
          unfolding st by (auto simp add: accepted_phase_def append_eq_Cons_conv)
        show ?thesis
          unfolding logs append_Nil2
          by (rule trace_invariantI)
            (use inv ap mt in \<open>simp_all del: mset_map set_map\<close>,
              simp_all add: st mt del: mset_map set_map)
      next
        case True
        have st: "system_step Queue_reads_master s
            = s\<lparr>m2q_pipe := rest,
                q2m_pipe := q2m_pipe s @ [Q2M_retrieve_accepted (N_tasks (queue_process s))
                                            (results (queue_process s))],
                queue_process := (queue_process s)\<lparr>results := [], N_tasks := 0\<rparr>\<rparr>"
          using q m M2Q_retrieve True
          by (simp add: system_step_def process_queue_pipe_message_def)
        have a7: "mset E \<subseteq># mset R" if ap: "accepted_phase (system_step Queue_reads_master s)"
        proof (cases "accepted_phase s")
          case True
          then show ?thesis by (rule inv(7))
        next
          case False
          then have pc: "master_pc (master s) = Retrieve_wait"
            using ap unfolding st by (auto simp add: accepted_phase_def)
          have p: "processes_ok jid job s" and hp: "handshake_pending jid job s"
            using ri pc by (simp_all add: run_invariant_def)
          have h: "last (m2q_pipe s) = M2Q_retrieve"
            "enqueue_messages jid job (butlast (m2q_pipe s))"
            "N_tasks (queue_process s) + length (butlast (m2q_pipe s)) = length (xsq_x job)"
            using hp m by (auto simp add: handshake_pending_def)
          have "rest = []"
          proof (rule ccontr)
            assume "rest \<noteq> []"
            then have "butlast (m2q_pipe s) = msg # butlast rest" using m by simp
            then show False
              using h(2) M2Q_retrieve by (simp add: enqueue_messages_def)
          qed
          then have n: "N_tasks (queue_process s) = length (xsq_x job)"
            using h(3) m by simp
          have d: "distinct (map fst (results (queue_process s)))"
            using p by (simp add: processes_ok_def map_ordered_def strict_sorted_iff)
          have lE: "length E = length (xsq_x job)"
            using inv(3) pc by (simp add: sent_count_def)
          have le: "mset R \<subseteq># mset E"
            using trace_below [OF ti] by (rule subset_mset.order_trans)
          show ?thesis
            by (rule all_recorded [OF d inv(6) _ le lE]) (use True n in simp)
        qed
        show ?thesis
          unfolding logs append_Nil2
          by (rule trace_invariantI)
            (use inv a7 mt in \<open>simp_all del: mset_map set_map\<close>,
              simp_all add: st mt del: mset_map set_map)
      qed
    qed
  qed
qed

lemma trace_master_move:
  assumes ti: "trace_invariant jid job s E D R"
    and st: "s' = s\<lparr>master := m', m2q_pipe := m2q_pipe s @ sent, q2m_pipe := rest\<rparr>"
    and E': "E @ m2q_tasks sent = map (Pair jid) [0..<sent_count job (master_pc m')]"
    and ap: "accepted_phase s' \<Longrightarrow> accepted_phase s \<and> m2q_tasks sent = []"
  shows "trace_invariant jid job s' (E @ m2q_tasks sent) D R"
proof (rule trace_invariantI)
  note inv = trace_invariantD [OF ti]
  show "is_queue (queue_process s')" "\<not> is_master (queue_process s')"
    using inv(1,2) by (simp_all add: st)
  show "E @ m2q_tasks sent = map (Pair jid) [0..<sent_count job (master_pc (master s'))]"
    using E' by (simp add: st)
  have "mset (map snd D) + mset (queue (queue_process s)) + mset (m2q_tasks (m2q_pipe s))
          + mset (m2q_tasks sent) = mset E + mset (m2q_tasks sent)"
    by (simp only: inv(4))
  then show "mset (map snd D) + mset (queue (queue_process s')) + mset (m2q_tasks (m2q_pipe s'))
          = mset (E @ m2q_tasks sent)"
    by (simp add: st m2q_tasks_append ac_simps del: mset_map)
  show "mset R + in_flight (workers s') \<subseteq># mset (map snd D)"
    using inv(5) by (simp add: st del: mset_map)
  show "set (map fst (results (queue_process s'))) \<subseteq> set R"
    using inv(6) by (simp add: st del: set_map)
  show "mset (E @ m2q_tasks sent) \<subseteq># mset R" if "accepted_phase s'"
    using ap [OF that] inv(7) by simp
qed

lemma trace_Master:
  assumes ri: "run_invariant jid job s" and ti: "trace_invariant jid job s E D R"
  shows "trace_invariant jid job (system_step Master s)
           (E @ enqueued_by Master s) (D @ delivered_by Master s) (R @ recorded_by Master s)"
proof -
  have logs: "delivered_by Master s = []" "recorded_by Master s = []"
    by (simp_all add: delivered_by_def recorded_by_def)
  note inv = trace_invariantD [OF ti]
  have idle: ?thesis if "master_step (master s) (q2m_pipe s) = None"
  proof -
    have "system_step Master s = s" "enqueued_by Master s = []"
      using that by (simp_all add: system_step_def enqueued_by_def)
    then show ?thesis using ti by (simp add: logs)
  qed
  have move: ?thesis
    if ms: "master_step (master s) (q2m_pipe s) = Some (m', sent, rest)"
      and E': "E @ m2q_tasks sent = map (Pair jid) [0..<sent_count job (master_pc m')]"
      and ap: "accepted_phase (s\<lparr>master := m', m2q_pipe := m2q_pipe s @ sent, q2m_pipe := rest\<rparr>)
               \<Longrightarrow> accepted_phase s \<and> m2q_tasks sent = []"
    for m' sent rest
  proof -
    have e: "system_step Master s = s\<lparr>master := m', m2q_pipe := m2q_pipe s @ sent, q2m_pipe := rest\<rparr>"
      "enqueued_by Master s = m2q_tasks sent"
      using ms by (simp_all add: system_step_def enqueued_by_def)
    show ?thesis
      unfolding logs append_Nil2 e(2)
      by (rule trace_master_move [OF ti e(1) E']) (use ap e(1) in simp)
  qed
  show ?thesis
  proof (cases "master_pc (master s)")
    case (Enqueue_next ix)
    have h: "processes_ok jid job s" "ix \<le> length (xsq_x job)" "q2m_pipe s = []"
      using ri Enqueue_next by (simp_all add: run_invariant_def)
    have pm: "is_master (master_ipqm (master s))" "job_id (master s) = jid"
      "xsq_x (master_job (master s)) = xsq_x job" "\<not> retrieved (master s)"
      using h(1) by (simp_all add: processes_ok_def)
    have E: "E = map (Pair jid) [0..<ix]"
      using inv(3) Enqueue_next by (simp add: sent_count_def)
    show ?thesis
    proof (cases "ix < length (xsq_x job)")
      case True
      obtain q' where q': "to_queue (jid, ix) (master_ipqm (master s)) = Inr ([M2Q_enqueue jid ix], q')"
        using master_to_queue [OF pm(1), of "(jid, ix)"] by auto
      show ?thesis
      proof (rule move)
        show "master_step (master s) (q2m_pipe s)
            = Some ((master s)\<lparr>master_ipqm := q', master_pc := Enqueue_next (ix + 1)\<rparr>,
                    [M2Q_enqueue jid ix], q2m_pipe s)"
          using Enqueue_next True pm q' by (simp add: master_step_def)
        show "E @ m2q_tasks [M2Q_enqueue jid ix]
            = map (Pair jid) [0..<sent_count job
                (master_pc ((master s)\<lparr>master_ipqm := q', master_pc := Enqueue_next (ix + 1)\<rparr>))]"
          using E by (simp add: sent_count_def)
      qed (simp add: accepted_phase_def)
    next
      case False
      show ?thesis
      proof (rule move)
        show "master_step (master s) (q2m_pipe s)
            = Some ((master s)\<lparr>master_pc := Retrieve_send\<rparr>, [], q2m_pipe s)"
          using Enqueue_next False pm by (simp add: master_step_def)
        show "E @ m2q_tasks []
            = map (Pair jid) [0..<sent_count job (master_pc ((master s)\<lparr>master_pc := Retrieve_send\<rparr>))]"
          using E False h(2) by (simp add: sent_count_def)
      qed (simp add: accepted_phase_def)
    qed
  next
    case Retrieve_send
    have h: "q2m_pipe s = []"
      using ri Retrieve_send by (simp_all add: run_invariant_def)
    have E: "E = map (Pair jid) [0..<length (xsq_x job)]"
      using inv(3) Retrieve_send by (simp add: sent_count_def)
    show ?thesis
    proof (rule move)
      show "master_step (master s) (q2m_pipe s)
          = Some ((master s)\<lparr>master_pc := Retrieve_wait\<rparr>, [M2Q_retrieve], q2m_pipe s)"
        using Retrieve_send by (simp add: master_step_def)
      show "E @ m2q_tasks [M2Q_retrieve]
          = map (Pair jid) [0..<sent_count job (master_pc ((master s)\<lparr>master_pc := Retrieve_wait\<rparr>))]"
        using E by (simp add: sent_count_def)
    qed (simp add: accepted_phase_def h)
  next
    case Retrieve_wait
    have p: "processes_ok jid job s" and hp: "handshake_pending jid job s"
      using ri Retrieve_wait by (simp_all add: run_invariant_def)
    have E: "E = map (Pair jid) [0..<length (xsq_x job)]"
      using inv(3) Retrieve_wait by (simp add: sent_count_def)
    show ?thesis
    proof (cases "q2m_pipe s")
      case Nil
      show ?thesis
        by (rule idle) (use Retrieve_wait Nil in \<open>simp add: master_step_def\<close>)
    next
      case (Cons hs rest)
      have m: "m2q_pipe s = []" "rest = []"
        using hp Cons by (auto simp add: handshake_pending_def)
      show ?thesis
      proof (cases hs)
        case Q2M_terminate
        then show ?thesis
          using hp Cons by (auto simp add: handshake_pending_def)
      next
        case Q2M_retrieve_rejected
        show ?thesis
        proof (rule move)
          show "master_step (master s) (q2m_pipe s)
              = Some ((master s)\<lparr>master_pc := Retrieve_send\<rparr>, [], rest)"
            using Retrieve_wait Cons Q2M_retrieve_rejected by (simp add: master_step_def)
          show "E @ m2q_tasks []
              = map (Pair jid) [0..<sent_count job (master_pc ((master s)\<lparr>master_pc := Retrieve_send\<rparr>))]"
            using E by (simp add: sent_count_def)
        qed (simp add: accepted_phase_def)
      next
        case (Q2M_retrieve_accepted n items)
        have it: "length items = n"
          using hp Cons Q2M_retrieve_accepted m by (auto simp add: handshake_pending_def)
        have pm: "results (master_ipqm (master s)) = []"
          using p by (simp_all add: processes_ok_def)
        define q where "q = (master_ipqm (master s))\<lparr>N_tasks := n,
            results := fold (\<lambda>item m. map_assign m (fst item) (snd item)) items []\<rparr>"
        have ra: "retrieve_accepted n items (master_ipqm (master s)) = Some q"
          using it pm by (simp add: retrieve_accepted_def q_def)
        define m' where "m' = gather_results ((master s)\<lparr>master_ipqm := q\<rparr>)"
        have pc: "\<exists>r. master_pc (copy_results m') = Returned r"
          by (simp add: copy_results_def Let_def)
        have acc: "accepted_phase s"
          using Retrieve_wait Cons Q2M_retrieve_accepted m by (simp add: accepted_phase_def)
        show ?thesis
        proof (rule move)
          show "master_step (master s) (q2m_pipe s) = Some (copy_results m', [], rest)"
            using Retrieve_wait Cons Q2M_retrieve_accepted ra
            by (simp add: master_step_def m'_def)
          show "E @ m2q_tasks []
              = map (Pair jid) [0..<sent_count job (master_pc (copy_results m'))]"
            using E pc by (auto simp add: sent_count_def)
        qed (simp add: acc)
      qed
    qed
  next
    case (Returned r)
    show ?thesis
      by (rule idle) (use Returned in \<open>simp add: master_step_def\<close>)
  next
    case (Master_thrown e)
    show ?thesis
      by (rule idle) (use Master_thrown in \<open>simp add: master_step_def\<close>)
  qed
qed

lemma trace_step:
  assumes ri: "run_invariant jid job s" and ti: "trace_invariant jid job s E D R"
  shows "trace_invariant jid job (system_step a s)
           (E @ enqueued_by a s) (D @ delivered_by a s) (R @ recorded_by a s)"
proof (cases a)
  case Master
  show ?thesis unfolding Master by (rule trace_Master [OF ri ti])
next
  case Queue_reads_master
  show ?thesis unfolding Queue_reads_master by (rule trace_Queue_reads_master [OF ri ti])
next
  case (Queue_reads_worker k)
  show ?thesis unfolding Queue_reads_worker by (rule trace_Queue_reads_worker [OF ti])
next
  case (Worker k)
  show ?thesis unfolding Worker by (rule trace_Worker [OF ti])
qed

lemma trace_run:
  assumes wf: "length (xsq_result job) = length (xsq_x job)"
    and ri: "run_invariant jid job s" and ti: "trace_invariant jid job s E D R"
  shows "trace_invariant jid job (run schedule s)
           (E @ enqueued schedule s) (D @ deliveries schedule s) (R @ recordings schedule s)"
  using ri ti
proof (induction schedule arbitrary: s E D R)
  case Nil
  then show ?case by (simp add: run_def)
next
  case (Cons a schedule)
  have ri': "run_invariant jid job (system_step a s)"
    by (rule system_step_invariant [OF Cons.prems(1) wf])
  have ti': "trace_invariant jid job (system_step a s)
           (E @ enqueued_by a s) (D @ delivered_by a s) (R @ recorded_by a s)"
    by (rule trace_step [OF Cons.prems])
  show ?case
    using Cons.IH [OF ri' ti'] by (simp add: run_def)
qed

lemma in_flight_replicate:
  assumes "worker_tokens w = {#}"
  shows "in_flight (replicate n w) = {#}"
  using assms by (induction n) (simp_all add: in_flight_def)

lemma forked_system_trace:
  "trace_invariant jid job (forked_system N_workers jid job) [] [] []"
proof (rule trace_invariantI)
  have "worker_tokens (forked_worker jid job) = {#}"
    by (simp add: worker_tokens_def forked_worker_def)
  then show "mset [] + in_flight (workers (forked_system N_workers jid job)) \<subseteq># mset (map snd [])"
    by (simp add: forked_system_def in_flight_replicate)
qed (simp_all add: forked_system_def forked_ipqm_def sent_count_def accepted_phase_def)

lemma run_logs:
  assumes wf: "length (xsq_result job) = length (xsq_x job)"
  shows "trace_invariant jid job (run schedule (forked_system N_workers jid job))
           (enqueued schedule (forked_system N_workers jid job))
           (deliveries schedule (forked_system N_workers jid job))
           (recordings schedule (forked_system N_workers jid job))"
  using trace_run [OF wf forked_system_invariant [OF wf, where jid = jid and N_workers = N_workers]
      forked_system_trace [where jid = jid and job = job and N_workers = N_workers],
      where schedule = schedule]
  by simp

lemma dequeue_reply:
  "process_worker_pipe_message W2Q_dequeue q =
     (if queue q = [] then Inr ([Q2W_dequeue_rejected], q)
      else Inr ([Q2W_dequeue_accepted (fst (hd (queue q))) (snd (hd (queue q)))],
                q\<lparr>queue := tl (queue q)\<rparr>))"
  by (simp add: process_worker_pipe_message_def from_queue_def)

lemma round_robin_2_logs:
  "enqueued (round_robin 2 13) (forked_system 2 0 test_job) = [(0, 0), (0, 1), (0, 2), (0, 3)]"
  "deliveries (round_robin 2 13) (forked_system 2 0 test_job)
     = [(0, 0, 0), (1, 0, 1), (0, 0, 2), (1, 0, 3)]"
  "recordings (round_robin 2 13) (forked_system 2 0 test_job) = [(0, 0), (0, 1), (0, 2), (0, 3)]"
  by code_simp+

lemma test_job_length: "length (xsq_x test_job) = 4"
  by (simp add: test_job_def xSquaredPlusBVectorSerial_def)

text \<open>C4. On the queue process an \<^verbatim>\<open>enqueue\<close> message appends its task at the tail of the
  queue and counts it. A \<^verbatim>\<open>dequeue\<close> request is answered with \<^verbatim>\<open>dequeue_rejected\<close> when the
  queue is empty, and otherwise with \<^verbatim>\<open>dequeue_accepted\<close> for the head, which is popped.
  Consequently, in every run of one \<^verbatim>\<open>evaluate\<close> call, under whatever schedule and with
  however many workers: the master enqueues no task twice, no task is handed out more often
  than it was enqueued, and no result is stored more often than its task was handed out.
  Once the master has returned, it has enqueued every task of the job, and each of them
  was handed to a worker exactly once and had its result stored exactly once.\<close>

theorem queue_fifo_exactly_once:
  assumes wf: "length (xsq_result job) = length (xsq_x job)"
  shows
    "(is_queue q \<and> \<not> is_master q \<longrightarrow>
        process_queue_pipe_message (M2Q_enqueue j t) q
          = Inr (True, [], [], q\<lparr>queue := queue q @ [(j, t)], N_tasks := N_tasks q + 1\<rparr>)) \<and>
     process_worker_pipe_message W2Q_dequeue q
       = (if queue q = [] then Inr ([Q2W_dequeue_rejected], q)
          else Inr ([Q2W_dequeue_accepted (fst (hd (queue q))) (snd (hd (queue q)))],
                    q\<lparr>queue := tl (queue q)\<rparr>)) \<and>
     distinct (enqueued schedule (forked_system N_workers jid job)) \<and>
     mset (map snd (deliveries schedule (forked_system N_workers jid job)))
       \<subseteq># mset (enqueued schedule (forked_system N_workers jid job)) \<and>
     mset (recordings schedule (forked_system N_workers jid job))
       \<subseteq># mset (map snd (deliveries schedule (forked_system N_workers jid job))) \<and>
     (master_pc (master (run schedule (forked_system N_workers jid job))) = Returned r \<longrightarrow>
        enqueued schedule (forked_system N_workers jid job)
          = map (Pair jid) [0..<length (xsq_x job)] \<and>
        (\<forall>task < length (xsq_x job).
           count_list (map snd (deliveries schedule (forked_system N_workers jid job))) (jid, task) = 1 \<and>
           count_list (recordings schedule (forked_system N_workers jid job)) (jid, task) = 1))"
proof -
  define s0 where "s0 = forked_system N_workers jid job"
  define E where "E = enqueued schedule s0"
  define D where "D = deliveries schedule s0"
  define R where "R = recordings schedule s0"
  have ti: "trace_invariant jid job (run schedule s0) E D R"
    unfolding s0_def E_def D_def R_def by (rule run_logs [OF wf])
  note inv = trace_invariantD [OF ti]
  note below = trace_below [OF ti]
  have enq: "is_queue q \<and> \<not> is_master q \<longrightarrow>
        process_queue_pipe_message (M2Q_enqueue j t) q
          = Inr (True, [], [], q\<lparr>queue := queue q @ [(j, t)], N_tasks := N_tasks q + 1\<rparr>)"
    using queue_enqueue [of q j t] by blast
  have dE: "distinct E"
    unfolding inv(3) by (simp add: distinct_map inj_on_def)
  have ret: "E = map (Pair jid) [0..<length (xsq_x job)] \<and>
        (\<forall>task < length (xsq_x job).
           count_list (map snd D) (jid, task) = 1 \<and> count_list R (jid, task) = 1)"
    if pc: "master_pc (master (run schedule s0)) = Returned r"
  proof -
    have E: "E = map (Pair jid) [0..<length (xsq_x job)]"
      using inv(3) pc by (simp add: sent_count_def)
    have "accepted_phase (run schedule s0)"
      using pc by (simp add: accepted_phase_def)
    then have "mset E \<subseteq># mset R" by (rule inv(7))
    then have "mset E \<subseteq># mset (map snd D)"
      using below(1) by (rule subset_mset.order_trans)
    then have eD: "mset (map snd D) = mset E"
      using below(2) by (rule subset_mset.antisym [rotated])
    have "mset R \<subseteq># mset E"
      using below by (rule subset_mset.order_trans)
    then have eR: "mset R = mset E"
      using \<open>mset E \<subseteq># mset R\<close> by (rule subset_mset.antisym)
    have one: "count (mset E) (jid, task) = 1" if "task < length (xsq_x job)" for task
    proof -
      have "(jid, task) \<in> set E" using that by (simp add: E)
      then show ?thesis using dE by (simp add: distinct_count_atmost_1)
    qed
    have "count_list (map snd D) (jid, task) = 1 \<and> count_list R (jid, task) = 1"
      if "task < length (xsq_x job)" for task
      using one [OF that] eD eR by (simp only: count_mset [symmetric])
    then show ?thesis using E by blast
  qed
  show ?thesis
    using enq dequeue_reply [of q] dE below ret
    unfolding s0_def E_def D_def R_def by blast
qed

theorem queue_fifo_exactly_once_witness:
  "length (xsq_result test_job) = length (xsq_x test_job) \<and>
   is_queue queue_example \<and> \<not> is_master queue_example \<and>
   process_queue_pipe_message (M2Q_enqueue 0 1) queue_example
     = Inr (True, [], [], queue_example\<lparr>queue := [(0, 1)], N_tasks := 2\<rparr>) \<and>
   master_pc (master (run (round_robin 2 13) (forked_system 2 0 test_job))) = Returned [3, 4, 7, 12] \<and>
   enqueued (round_robin 2 13) (forked_system 2 0 test_job) = map (Pair 0) [0..<4] \<and>
   (2::nat) < length (xsq_x test_job) \<and>
   count_list (map snd (deliveries (round_robin 2 13) (forked_system 2 0 test_job))) (0, 2) = 1 \<and>
   count_list (recordings (round_robin 2 13) (forked_system 2 0 test_job)) (0, 2) = 1"
  using queue_fifo_exactly_once [OF test_job_wf, where q = queue_example and j = 0 and t = 1
      and schedule = "round_robin 2 13" and N_workers = 2 and jid = 0 and r = "[3, 4, 7, 12]"]
    round_robin_2 test_job_wf test_job_length
  by (simp add: queue_example_def forked_ipqm_def)


end
